theory Spec2Isabelle
  imports Main
begin

section \<open>Python regular expressions, as a backtracking matcher\<close>

text \<open>
  The module \<^verbatim>\<open>sphinx_mdinclude/parse.py\<close> consists of regular expressions, two tuples
  of rule names and handlers that read the groups of a match object. The patterns are
  embedded as terms of the datatype \<open>re\<close>, one constructor for each construct of Python's
  \<^verbatim>\<open>re\<close> syntax that the module uses, and run by \<open>rmatch\<close>, a backtracking matcher that
  returns every way a pattern can match at the cursor, in the order in which Python's
  engine tries them: the head of the list is the match that \<^verbatim>\<open>Pattern.match\<close> returns.

  A character of the model is a \<open>char\<close>: the code points below 256 of a Python string.

  The emphasis patterns of the module and their handlers, the handler of \<open>image_link\<close> and
  the two \<open>SPECIFICATION\<close> dictionaries are left out: no statement below concerns them.
\<close>

text \<open>\<^verbatim>\<open>\s\<close> on a \<^verbatim>\<open>str\<close> pattern: the code points below 256 for which \<^verbatim>\<open>str.isspace\<close> holds.\<close>

definition isspace :: "char \<Rightarrow> bool" where
  "isspace c = ((of_char c :: nat) \<in> {9, 10, 11, 12, 13, 28, 29, 30, 31, 32, 133, 160})"

record flags =
  dotall :: bool
  multiline :: bool

text \<open>One member of a bracketed character set.\<close>

datatype citem = One char | Range char char | SpaceC | NonSpaceC

fun citem_ok :: "citem \<Rightarrow> char \<Rightarrow> bool" where
  "citem_ok (One d) c = (c = d)"
| "citem_ok (Range lo hi) c = ((of_char lo :: nat) \<le> of_char c \<and> (of_char c :: nat) \<le> of_char hi)"
| "citem_ok SpaceC c = isspace c"
| "citem_ok NonSpaceC c = (\<not> isspace c)"

text \<open>
  An atom consumes exactly one character: a literal, \<^verbatim>\<open>.\<close>, \<^verbatim>\<open>\s\<close>, \<^verbatim>\<open>\S\<close>, a set
  \<^verbatim>\<open>[...]\<close> or a complemented set \<^verbatim>\<open>[^...]\<close>.
\<close>

datatype atom = Lit char | Dot | Space | NonSpace | Cls "citem list" | NotCls "citem list"

fun atom_ok :: "flags \<Rightarrow> atom \<Rightarrow> char \<Rightarrow> bool" where
  "atom_ok fl (Lit d) c = (c = d)"
| "atom_ok fl Dot c = (dotall fl \<or> c \<noteq> CHR ''\<newline>'')"
| "atom_ok fl Space c = isspace c"
| "atom_ok fl NonSpace c = (\<not> isspace c)"
| "atom_ok fl (Cls is) c = list_ex (\<lambda>i. citem_ok i c) is"
| "atom_ok fl (NotCls is) c = (\<not> list_ex (\<lambda>i. citem_ok i c) is)"

datatype greed = Greedy | Lazy

datatype re =
    Atom atom
  | Eps
  | Seq re re
  | Alt re re
  | Star greed re
  | Grp nat re
  | Ahead re
  | NotBehind char
  | Bol
  | Eol

text \<open>
  The state of a match attempt: the text before the cursor, the text from the cursor on,
  and the text captured by each group that has taken part so far.
\<close>

type_synonym groups = "nat \<rightharpoonup> string"
type_synonym mstate = "string \<times> string \<times> groups"

text \<open>\<^verbatim>\<open>^\<close> and \<^verbatim>\<open>$\<close>, with and without \<^verbatim>\<open>re.MULTILINE\<close>.\<close>

definition at_bol :: "flags \<Rightarrow> string \<Rightarrow> bool" where
  "at_bol fl pre = (pre = [] \<or> (multiline fl \<and> last pre = CHR ''\<newline>''))"

definition at_eol :: "flags \<Rightarrow> string \<Rightarrow> bool" where
  "at_eol fl rest = (rest = [] \<or> rest = [CHR ''\<newline>''] \<or> (multiline fl \<and> hd rest = CHR ''\<newline>''))"

text \<open>
  The matcher. A repetition tries one more round of its body before stopping when it is
  greedy, and stops before trying one more round when it is lazy; a round that consumed
  nothing is not repeated (no repetition of the module has a body that can match the empty
  text). A group records the text its body consumed.
\<close>

function (sequential) rmatch :: "flags \<Rightarrow> re \<Rightarrow> mstate \<Rightarrow> mstate list" where
  "rmatch fl (Atom a) (pre, rest, g) =
     (case rest of
        [] \<Rightarrow> []
      | c # cs \<Rightarrow> if atom_ok fl a c then [(pre @ [c], cs, g)] else [])"
| "rmatch fl Eps st = [st]"
| "rmatch fl (Seq r1 r2) st = concat (map (rmatch fl r2) (rmatch fl r1 st))"
| "rmatch fl (Alt r1 r2) st = rmatch fl r1 st @ rmatch fl r2 st"
| "rmatch fl (Star gr r) (pre, rest, g) =
     (let more = concat (map (rmatch fl (Star gr r))
                   (filter (\<lambda>(pre', rest', g'). length rest' < length rest)
                      (rmatch fl r (pre, rest, g))))
      in case gr of Greedy \<Rightarrow> more @ [(pre, rest, g)] | Lazy \<Rightarrow> (pre, rest, g) # more)"
| "rmatch fl (Grp n r) (pre, rest, g) =
     map (\<lambda>(pre', rest', g'). (pre', rest', g'(n \<mapsto> drop (length pre) pre')))
       (rmatch fl r (pre, rest, g))"
| "rmatch fl (Ahead r) st = (if rmatch fl r st = [] then [] else [st])"
| "rmatch fl (NotBehind c) (pre, rest, g) =
     (if pre \<noteq> [] \<and> last pre = c then [] else [(pre, rest, g)])"
| "rmatch fl Bol (pre, rest, g) = (if at_bol fl pre then [(pre, rest, g)] else [])"
| "rmatch fl Eol (pre, rest, g) = (if at_eol fl rest then [(pre, rest, g)] else [])"
  by pat_completeness auto
termination
  by (relation "measures [\<lambda>(fl, r, pre, rest, g). size r, \<lambda>(fl, r, pre, rest, g). length rest]")
     auto

text \<open>
  \<^verbatim>\<open>Pattern.match(s, pos)\<close>: the first way the pattern matches at \<open>pos\<close>, as the map from group
  numbers to captured text, group 0 being the whole match. A group that took no part is
  absent from the map; \<^verbatim>\<open>Match.group\<close> returns \<^verbatim>\<open>None\<close> for it.
\<close>

type_synonym match = groups

definition re_match :: "flags \<Rightarrow> re \<Rightarrow> string \<Rightarrow> nat \<Rightarrow> match option" where
  "re_match fl r s pos =
     (let pre = take pos s
      in case rmatch fl r (pre, drop pos s, Map.empty) of
           [] \<Rightarrow> None
         | (pre', rest', g) # _ \<Rightarrow> Some (g(0 \<mapsto> drop (length pre) pre')))"

datatype pyval = PyNone | PyStr string

definition group :: "match \<Rightarrow> nat \<Rightarrow> pyval" where
  "group m n = (case m n of None \<Rightarrow> PyNone | Some t \<Rightarrow> PyStr t)"

text \<open>The numbers of the groups of a pattern.\<close>
fun grps :: "re \<Rightarrow> nat set" where
  "grps (Seq r1 r2) = grps r1 \<union> grps r2"
| "grps (Alt r1 r2) = grps r1 \<union> grps r2"
| "grps (Star gr r) = grps r"
| "grps (Grp n r) = insert n (grps r)"
| "grps (Ahead r) = grps r"
| "grps r = {}"

subsection \<open>Pattern syntax\<close>

abbreviation chr :: "char \<Rightarrow> re" where
  "chr c \<equiv> Atom (Lit c)"

text \<open>Concatenation of several pieces, \<^verbatim>\<open>r+\<close> and \<^verbatim>\<open>r+?\<close>, and \<^verbatim>\<open>r?\<close>.\<close>

fun cat :: "re list \<Rightarrow> re" where
  "cat [] = Eps"
| "cat [r] = r"
| "cat (r # rs) = Seq r (cat rs)"

definition Plus :: "greed \<Rightarrow> re \<Rightarrow> re" where
  "Plus gr r = Seq r (Star gr r)"

definition Opt :: "re \<Rightarrow> re" where
  "Opt r = Alt r Eps"

text \<open>\<^verbatim>\<open>[\s\S]\<close>: any character, the line break included.\<close>

abbreviation anychar :: re where
  "anychar \<equiv> Atom (Cls [SpaceC, NonSpaceC])"

section \<open>The block parser\<close>

text \<open>The three block patterns are compiled with \<^verbatim>\<open>re.DOTALL | re.MULTILINE\<close>.\<close>

definition block_flags :: flags where
  "block_flags = \<lparr>dotall = True, multiline = True\<rparr>"

text \<open>\<^verbatim>\<open>^( *\.\..*?)\n(?=\S)\<close>\<close>

definition DIRECTIVE :: re where
  "DIRECTIVE =
     cat [Bol,
          Grp 1 (cat [Star Greedy (chr CHR '' ''), chr CHR ''.'', chr CHR ''.'',
                      Star Lazy (Atom Dot)]),
          chr CHR ''\<newline>'',
          Ahead (Atom NonSpace)]"

text \<open>\<^verbatim>\<open>^( *\.\..*?)$\<close>\<close>

definition ONELINE_DIRECTIVE :: re where
  "ONELINE_DIRECTIVE =
     cat [Bol,
          Grp 1 (cat [Star Greedy (chr CHR '' ''), chr CHR ''.'', chr CHR ''.'',
                      Star Lazy (Atom Dot)]),
          Eol]"

text \<open>\<^verbatim>\<open>^::\s*$\<close>\<close>

definition REST_CODE_BLOCK :: re where
  "REST_CODE_BLOCK = cat [Bol, chr CHR '':'', chr CHR '':'', Star Greedy (Atom Space), Eol]"

text \<open>
  The active rules: the tuple \<^verbatim>\<open>BlockParser.DEFAULT_RULES\<close> of the mistune library, which
  is not part of this module and is a parameter here, followed by the three rule names of
  this module.
\<close>

definition RestBlockParser_DEFAULT_RULES :: "string list \<Rightarrow> string list" where
  "RestBlockParser_DEFAULT_RULES base =
     base @ [''directive'', ''oneline_directive'', ''rest_code_block'']"

text \<open>
  A block token is a dictionary, kept as the list of its items in insertion order. The
  handlers ignore the parser state they are given.
\<close>

type_synonym token = "(string \<times> pyval) list"

definition parse_directive :: "match \<Rightarrow> 'st \<Rightarrow> token" where
  "parse_directive m state = [(''type'', PyStr ''directive''), (''text'', group m 1)]"

definition parse_oneline_directive :: "match \<Rightarrow> 'st \<Rightarrow> token" where
  "parse_oneline_directive m state = [(''type'', PyStr ''directive''), (''text'', group m 1)]"

definition parse_rest_code_block :: "match \<Rightarrow> 'st \<Rightarrow> token" where
  "parse_rest_code_block m state = [(''type'', PyStr ''rest_code_block''), (''text'', PyStr [])]"

section \<open>The inline parser\<close>

text \<open>
  The inline patterns are plain strings; the flags they are compiled with are a parameter
  of the statements below. Python's default is no flag.
\<close>

definition no_flags :: flags where
  "no_flags = \<lparr>dotall = False, multiline = False\<rparr>"

text \<open>\<^verbatim>\<open>:.*?:`.*?`|`[^`]+`:.*?:\<close>\<close>

definition REST_ROLE :: re where
  "REST_ROLE =
     Alt (cat [chr CHR '':'', Star Lazy (Atom Dot), chr CHR '':'', chr CHR 0x60,
               Star Lazy (Atom Dot), chr CHR 0x60])
         (cat [chr CHR 0x60, Plus Greedy (Atom (NotCls [One CHR 0x60])), chr CHR 0x60,
               chr CHR '':'', Star Lazy (Atom Dot), chr CHR '':''])"

text \<open>\<^verbatim>\<open>`[^`]*?`_\<close>\<close>

definition REST_LINK :: re where
  "REST_LINK =
     cat [chr CHR 0x60, Star Lazy (Atom (NotCls [One CHR 0x60])), chr CHR 0x60, chr CHR ''_'']"

text \<open>\<^verbatim>\<open>`\$((.*?)\$`)\<close>\<close>

definition INLINE_MATH :: re where
  "INLINE_MATH =
     cat [chr CHR 0x60, chr CHR ''$'',
          Grp 1 (cat [Grp 2 (Star Lazy (Atom Dot)), chr CHR ''$'', chr CHR 0x60])]"

text \<open>\<^verbatim>\<open>(\s+)?::\s*$\<close>\<close>

definition EOL_LITERAL_MARKER :: re where
  "EOL_LITERAL_MARKER =
     cat [Opt (Grp 1 (Plus Greedy (Atom Space))), chr CHR '':'', chr CHR '':'',
          Star Greedy (Atom Space), Eol]"

text \<open>
  \<^verbatim>\<open>^[\s\S]+?(?=[...]|https?://| {2,}\n|$)\<close>, the lookahead first. Its bracketed set holds
  the backslash, \<^verbatim>\<open><\<close>, \<^verbatim>\<open>!\<close>, \<^verbatim>\<open>[\<close>, \<^verbatim>\<open>:\<close>, \<^verbatim>\<open>_\<close>, \<^verbatim>\<open>*\<close>, the backtick, \<^verbatim>\<open>~\<close> and the
  space, in this order.
\<close>

definition TEXT_STOP :: re where
  "TEXT_STOP =
     Alt (Atom (Cls [One CHR 0x5C, One CHR ''<'', One CHR ''!'', One CHR ''['', One CHR '':'',
                     One CHR ''_'', One CHR ''*'', One CHR 0x60, One CHR ''~'', One CHR '' '']))
    (Alt (cat [chr CHR ''h'', chr CHR ''t'', chr CHR ''t'', chr CHR ''p'', Opt (chr CHR ''s''),
               chr CHR '':'', chr CHR ''/'', chr CHR ''/''])
    (Alt (cat [chr CHR '' '', chr CHR '' '', Star Greedy (chr CHR '' ''), chr CHR ''\<newline>''])
         Eol))"

definition TEXT :: re where
  "TEXT = cat [Bol, Plus Lazy anychar, Ahead TEXT_STOP]"

text \<open>
  The active rules: the four rule names of this module, then the tuple
  \<^verbatim>\<open>InlineParser.DEFAULT_RULES\<close> of the mistune library, a parameter here.
\<close>

definition RestInlineParser_DEFAULT_RULES :: "string list \<Rightarrow> string list" where
  "RestInlineParser_DEFAULT_RULES base =
     [''inline_math'', ''rest_role'', ''rest_link'', ''eol_literal_marker''] @ base"

text \<open>An inline element is a tuple, kept as the list of its components.\<close>

type_synonym element = "pyval list"

definition parse_rest_role :: "match \<Rightarrow> 'st \<Rightarrow> element" where
  "parse_rest_role m state = [PyStr ''rest_role'', group m 0]"

definition parse_rest_link :: "match \<Rightarrow> 'st \<Rightarrow> element" where
  "parse_rest_link m state = [PyStr ''rest_link'', group m 0]"

definition parse_inline_math :: "match \<Rightarrow> 'st \<Rightarrow> element" where
  "parse_inline_math m state = [PyStr ''inline_math'', group m 2]"

definition parse_eol_literal_marker :: "match \<Rightarrow> 'st \<Rightarrow> element" where
  "parse_eol_literal_marker m state =
     (let marker = (if group m 1 = PyNone then '':'' else [])
      in [PyStr ''eol_literal_marker'', PyStr marker])"

subsection \<open>Inline HTML\<close>

text \<open>
  \<open>INLINE_HTML\<close> is built from \<^verbatim>\<open>HTML_TAGNAME\<close> and \<^verbatim>\<open>HTML_ATTRIBUTES\<close>, two pattern strings
  of the mistune library that are not part of this module: they are parameters here, each
  a pattern of its own without capturing groups. The five alternatives are named after the
  comments of the source: the open tag, contents and close tag; the open/close tag; the
  processing instruction; the doctype; the CDATA section. Each begins with a lookbehind
  that refuses a backslash before the \<^verbatim>\<open><\<close>. With \<open>T\<close> for the tag name and \<open>A\<close> for the
  attributes, the pattern reads
  \<^verbatim>\<open>(?<!\\)<\<close>\<open>T A\<close>\<^verbatim>\<open>\s*>(.*)(?<!\\)</\<close>\<open>T\<close>\<^verbatim>\<open>\s*>\<close>, or
  \<^verbatim>\<open>(?<!\\)<\<close>\<open>T A\<close>\<^verbatim>\<open>\s*/>\<close>, or
  \<^verbatim>\<open>(?<!\\)<\?[\s\S]+?\?>\<close>, or
  \<^verbatim>\<open>(?<!\\)<![A-Z][\s\S]+?>\<close>, or
  \<^verbatim>\<open>(?<!\\)<!\[CDATA[\s\S]+?\]\]>\<close>.
\<close>

definition html_open :: "re \<Rightarrow> re \<Rightarrow> re" where
  "html_open tagname attrs =
     cat [NotBehind CHR 0x5C, chr CHR ''<'', tagname, attrs, Star Greedy (Atom Space), chr CHR ''>'']"

definition html_close :: "re \<Rightarrow> re" where
  "html_close tagname =
     cat [NotBehind CHR 0x5C, chr CHR ''<'', chr CHR ''/'', tagname, Star Greedy (Atom Space), chr CHR ''>'']"

definition html_span :: "re \<Rightarrow> re \<Rightarrow> re" where
  "html_span tagname attrs =
     cat [html_open tagname attrs, Grp 1 (Star Greedy (Atom Dot)), html_close tagname]"

definition html_selfclose :: "re \<Rightarrow> re \<Rightarrow> re" where
  "html_selfclose tagname attrs =
     cat [NotBehind CHR 0x5C, chr CHR ''<'', tagname, attrs, Star Greedy (Atom Space),
          chr CHR ''/'', chr CHR ''>'']"

definition html_pi :: re where
  "html_pi = cat [NotBehind CHR 0x5C, chr CHR ''<'', chr CHR ''?'', Plus Lazy anychar,
                  chr CHR ''?'', chr CHR ''>'']"

definition html_doctype :: re where
  "html_doctype = cat [NotBehind CHR 0x5C, chr CHR ''<'', chr CHR ''!'',
                       Atom (Cls [Range CHR ''A'' CHR ''Z'']), Plus Lazy anychar, chr CHR ''>'']"

definition html_cdata :: re where
  "html_cdata = cat [NotBehind CHR 0x5C, chr CHR ''<'', chr CHR ''!'', chr CHR ''['',
                     chr CHR ''C'', chr CHR ''D'', chr CHR ''A'', chr CHR ''T'', chr CHR ''A'',
                     Plus Lazy anychar, chr CHR '']'', chr CHR '']'', chr CHR ''>'']"

definition INLINE_HTML :: "re \<Rightarrow> re \<Rightarrow> re" where
  "INLINE_HTML tagname attrs =
     Alt (html_span tagname attrs)
    (Alt (html_selfclose tagname attrs)
    (Alt html_pi
    (Alt html_doctype
         html_cdata)))"

text \<open>
  A concrete value for the two parameters, used where a statement is evaluated: a tag name
  is a letter followed by letters, digits and hyphens, \<^verbatim>\<open>[A-Za-z][A-Za-z0-9-]*\<close>; the
  attributes are any number of names, each after whitespace and each with an optional
  value after \<^verbatim>\<open>=\<close>, which is unquoted, single-quoted or double-quoted (the patterns of
  mistune 3).
\<close>

definition example_TAGNAME :: re where
  "example_TAGNAME =
     cat [Atom (Cls [Range CHR ''A'' CHR ''Z'', Range CHR ''a'' CHR ''z'']),
          Star Greedy (Atom (Cls [Range CHR ''A'' CHR ''Z'', Range CHR ''a'' CHR ''z'',
                                  Range CHR ''0'' CHR ''9'', One CHR ''-'']))]"

definition example_ATTRIBUTES :: re where
  "example_ATTRIBUTES =
     Star Greedy
       (cat [Plus Greedy (Atom Space),
             Atom (Cls [Range CHR ''A'' CHR ''Z'', Range CHR ''a'' CHR ''z'', One CHR ''_'', One CHR '':'']),
             Star Greedy (Atom (Cls [Range CHR ''A'' CHR ''Z'', Range CHR ''a'' CHR ''z'',
                                     Range CHR ''0'' CHR ''9'', One CHR ''_'', One CHR ''.'',
                                     One CHR '':'', One CHR ''-''])),
             Opt (cat [Star Greedy (Atom Space), chr CHR ''='', Star Greedy (Atom Space),
                       Alt (Plus Greedy (Atom (NotCls [One CHR '' '', One CHR ''!'', One CHR 0x22,
                                                       One CHR 0x27, One CHR ''='', One CHR ''<'',
                                                       One CHR ''>'', One CHR 0x60])))
                      (Alt (cat [chr CHR 0x27, Star Lazy (Atom (NotCls [One CHR 0x27])), chr CHR 0x27])
                           (cat [chr CHR 0x22, Star Lazy (Atom (NotCls [One CHR 0x22])), chr CHR 0x22]))])])"

section \<open>Rule order\<close>

text \<open>
  A rule \<open>a\<close> is tried before a rule \<open>b\<close> when both stand in the tuple of active rules and
  \<open>a\<close> stands before the first place of \<open>b\<close>.
\<close>

definition tried_before :: "string \<Rightarrow> string \<Rightarrow> string list \<Rightarrow> bool" where
  "tried_before a b rules = (b \<in> set rules \<and> a \<in> set (takeWhile (\<lambda>x. x \<noteq> b) rules))"

subsection \<open>One step of an engine\<close>

text \<open>
  The driver that walks the tuple of active rules is the scanner of the mistune library; it
  is not part of this module. The specification gives its protocol (sections 2, 4.1, 4.2
  and 7). A rule is a pattern, matched against the remaining text at the cursor, and a
  handler. One step attempts the active rules in the order of the tuple; a rule that does
  not match cedes to the next; the first rule that matches wins, its handler converts the
  match, and the cursor advances past the matched text. If every rule fails, the step
  signals that nothing matched, and the caller falls back to the default paragraph
  consumption (block engine) or to plain-text accumulation (inline engine).

  A rule is kept as what it yields on an input at a cursor: nothing, or the output of its
  handler and the cursor after the match.
\<close>

type_synonym 'a rule = "string \<Rightarrow> nat \<Rightarrow> ('a \<times> nat) option"

text \<open>
  Modelled from the spec: one step of the driver, over the active rule names and a table
  from rule names to rules. The result is the name of the first rule that matches, with
  what it yields, or nothing when every rule fails.
\<close>

fun engine_step :: "string list \<Rightarrow> (string \<Rightarrow> 'a rule) \<Rightarrow> string \<Rightarrow> nat \<Rightarrow> (string \<times> 'a \<times> nat) option" where
  "engine_step [] table s pos = None"
| "engine_step (name # names) table s pos =
     (case table name s pos of
        Some out \<Rightarrow> Some (name, out)
      | None \<Rightarrow> engine_step names table s pos)"

text \<open>
  Modelled from the spec: the rules that one step attempts, in the order of the attempts.
  The step stops at the first rule that matches.
\<close>

fun attempted :: "string list \<Rightarrow> (string \<Rightarrow> 'a rule) \<Rightarrow> string \<Rightarrow> nat \<Rightarrow> string list" where
  "attempted [] table s pos = []"
| "attempted (name # names) table s pos =
     name # (case table name s pos of
               Some out \<Rightarrow> []
             | None \<Rightarrow> attempted names table s pos)"

text \<open>Modelled from the spec: the cursor after a match that started at \<open>pos\<close>.\<close>

definition match_end :: "nat \<Rightarrow> match \<Rightarrow> nat" where
  "match_end pos m = pos + (case m 0 of None \<Rightarrow> 0 | Some w \<Rightarrow> length w)"

text \<open>
  Modelled from the spec: the rule made of a pattern, the flags it is compiled with and a
  handler. The pattern is matched at the start of the remaining text; the handler is given
  the match and a parser state, which the handlers of this module ignore.
\<close>

definition rule_of :: "flags \<Rightarrow> re \<Rightarrow> (match \<Rightarrow> unit \<Rightarrow> 'a) \<Rightarrow> 'a rule" where
  "rule_of fl pattern handler s pos =
     (case re_match fl pattern (drop pos s) 0 of
        None \<Rightarrow> None
      | Some m \<Rightarrow> Some (handler m (), match_end pos m))"

text \<open>
  The rule tables of the two parsers. \<^verbatim>\<open>SPECIFICATION\<close> is a copy of the table of the
  library, updated at the names of this module; the handler of a name is the method
  \<^verbatim>\<open>parse_\<close>\<open>name\<close>. The table of the library is a parameter, and so are the flags of the
  inline patterns. The rules that this module overrides in part only (\<open>inline_html\<close>, whose
  handler is the library's, and the two emphasis rules) stay within the parameter.
\<close>

definition RestBlockParser_rules :: "(string \<Rightarrow> token rule) \<Rightarrow> string \<Rightarrow> token rule" where
  "RestBlockParser_rules base_table =
     base_table
       (''directive'' := rule_of block_flags DIRECTIVE parse_directive,
        ''oneline_directive'' := rule_of block_flags ONELINE_DIRECTIVE parse_oneline_directive,
        ''rest_code_block'' := rule_of block_flags REST_CODE_BLOCK parse_rest_code_block)"

definition RestInlineParser_rules :: "flags \<Rightarrow> (string \<Rightarrow> element rule) \<Rightarrow> string \<Rightarrow> element rule" where
  "RestInlineParser_rules fl base_table =
     base_table
       (''inline_math'' := rule_of fl INLINE_MATH parse_inline_math,
        ''rest_link'' := rule_of fl REST_LINK parse_rest_link,
        ''rest_role'' := rule_of fl REST_ROLE parse_rest_role,
        ''eol_literal_marker'' := rule_of fl EOL_LITERAL_MARKER parse_eol_literal_marker)"

text \<open>
  A concrete value for the parameter of the block rule order, used where a statement is
  evaluated: the block rule names of mistune 3.
\<close>

definition example_block_rules :: "string list" where
  "example_block_rules =
     [''fenced_code'', ''indent_code'', ''axt_heading'', ''setex_heading'', ''thematic_break'',
      ''block_quote'', ''list'', ''ref_link'', ''raw_html'', ''blank_line'']"

text \<open>
  Stand-ins for the rule tables of the library, used where a statement is evaluated. In
  the block table the rule \<open>list\<close> matches where the remaining text starts with a hyphen
  and a space, and takes the rest of the input; in the inline table the rule \<open>codespan\<close>
  matches where the remaining text starts with a backtick, and takes the rest of the
  input. No other rule of either matches.
\<close>

definition example_block_table :: "string \<Rightarrow> token rule" where
  "example_block_table name s pos =
     (if name = ''list'' \<and> take 2 (drop pos s) = ''- ''
      then Some ([(''type'', PyStr ''list'')], length s) else None)"

definition example_inline_table :: "string \<Rightarrow> element rule" where
  "example_inline_table name s pos =
     (if name = ''codespan'' \<and> take 1 (drop pos s) = [CHR 0x60]
      then Some ([PyStr ''codespan''], length s) else None)"

section \<open>Acceptance of a text by a pattern\<close>

text \<open>Two states of the matcher are at the same place when they differ in the groups only.\<close>

definition same_place :: "mstate \<Rightarrow> mstate \<Rightarrow> bool" where
  "same_place = (\<lambda>x y. fst x = fst y \<and> fst (snd x) = fst (snd y))"

text \<open>
  \<open>accepts fl r pre w rest\<close>: tried after \<open>pre\<close> on the text \<open>w @ rest\<close>, the pattern \<open>r\<close> can
  match exactly \<open>w\<close>.
\<close>

definition accepts :: "flags \<Rightarrow> re \<Rightarrow> string \<Rightarrow> string \<Rightarrow> string \<Rightarrow> bool" where
  "accepts fl r pre w rest =
     ((pre @ w, rest) \<in> set (map (\<lambda>(p', r', g'). (p', r')) (rmatch fl r (pre, w @ rest, Map.empty))))"

section \<open>Plain text, as the lookahead of \<open>TEXT\<close> bounds it\<close>

text \<open>
  The plain-text match described directly: the text stops where the rest is empty, or
  starts with a character of the bracketed set, or with \<^verbatim>\<open>http://\<close> or \<^verbatim>\<open>https://\<close>, or is
  at a line end as \<^verbatim>\<open>$\<close> sees it. \<open>scan_plain\<close> runs up to the first such place.
\<close>

definition stop_chars :: "char list" where
  "stop_chars = [CHR 0x5C, CHR ''<'', CHR ''!'', CHR ''['', CHR '':'', CHR ''_'', CHR ''*'',
                 CHR 0x60, CHR ''~'', CHR '' '']"

fun text_stop :: "flags \<Rightarrow> string \<Rightarrow> bool" where
  "text_stop fl [] = True"
| "text_stop fl (c # cs) =
     (c \<in> set stop_chars \<or> take 7 (c # cs) = ''http://'' \<or> take 8 (c # cs) = ''https://'' \<or>
      at_eol fl (c # cs))"

fun scan_plain :: "flags \<Rightarrow> string \<Rightarrow> string" where
  "scan_plain fl [] = []"
| "scan_plain fl (c # cs) = (if text_stop fl (c # cs) then [] else c # scan_plain fl cs)"

text \<open>
  The plain-text match as the specification words it: the longest text that ends before
  the first of the backslash, \<^verbatim>\<open><\<close>, \<^verbatim>\<open>!\<close>, \<^verbatim>\<open>[\<close>, \<^verbatim>\<open>:\<close>, \<^verbatim>\<open>_\<close>, \<^verbatim>\<open>*\<close>, the backtick, \<^verbatim>\<open>~\<close>, a bare
  \<^verbatim>\<open>http://\<close> or \<^verbatim>\<open>https://\<close>, or two or more spaces before a line end, and before nothing
  else.
\<close>

definition claimed_stop_chars :: "char list" where
  "claimed_stop_chars = [CHR 0x5C, CHR ''<'', CHR ''!'', CHR ''['', CHR '':'', CHR ''_'', CHR ''*'',
                 CHR 0x60, CHR ''~'']"

definition claimed_stop :: "string \<Rightarrow> bool" where
  "claimed_stop rest =
     (case rest of
        [] \<Rightarrow> False
      | c # cs \<Rightarrow>
          c \<in> set claimed_stop_chars \<or> take 7 rest = ''http://'' \<or> take 8 rest = ''https://'' \<or>
          (take 2 rest = ''  '' \<and> take 1 (dropWhile (\<lambda>x. x = CHR '' '') rest) = ''\<newline>''))"

fun claimed_plain_text :: "string \<Rightarrow> string" where
  "claimed_plain_text [] = []"
| "claimed_plain_text (c # cs) = (if claimed_stop (c # cs) then [] else c # claimed_plain_text cs)"

section \<open>Lines of a block\<close>

text \<open>
  Whether some line break of the text is directly followed by a character that is not
  whitespace, that is, whether a later line starts in column 0 with a non-whitespace
  character; and the text up to the first line break.
\<close>

fun col0_line_follows :: "string \<Rightarrow> bool" where
  "col0_line_follows (a # b # cs) =
     ((a = CHR ''\<newline>'' \<and> \<not> isspace b) \<or> col0_line_follows (b # cs))"
| "col0_line_follows cs = False"

definition first_line :: "string \<Rightarrow> string" where
  "first_line rest = takeWhile (\<lambda>c. c \<noteq> CHR ''\<newline>'') rest"

abbreviation not_nl :: "char \<Rightarrow> bool" where
  "not_nl c \<equiv> c \<noteq> CHR ''\<newline>''"

section \<open>Facts about the matcher\<close>

text \<open>
  The equation of a repetition mentions the repetition again, so it is taken out of the
  simplifier's rules and unfolded one round at a time.
\<close>

declare rmatch.simps(5) [simp del]

lemmas rmatch_Star = rmatch.simps(5)

lemma star_results:
  "set (rmatch fl (Star gr r) (pre, rest, g)) =
     insert (pre, rest, g)
       (\<Union>st \<in> {st \<in> set (rmatch fl r (pre, rest, g)). length (fst (snd st)) < length rest}.
          set (rmatch fl (Star gr r) st))"
  by (subst rmatch.simps(5)) (cases gr; auto simp: Let_def)

lemma star_cases:
  assumes "(pre', rest', g') \<in> set (rmatch fl (Star gr r) (pre, rest, g))"
  shows "(pre', rest', g') = (pre, rest, g) \<or>
         (\<exists>p1 q1 g1. (p1, q1, g1) \<in> set (rmatch fl r (pre, rest, g)) \<and> length q1 < length rest \<and>
            (pre', rest', g') \<in> set (rmatch fl (Star gr r) (p1, q1, g1)))"
  using assms star_results [of fl gr r pre rest g] by auto

lemma rmatch_consumes:
  "(pre', rest', g') \<in> set (rmatch fl r (pre, rest, g)) \<Longrightarrow> \<exists>w. pre' = pre @ w \<and> rest = w @ rest'"
proof (induction fl r "(pre, rest, g)" arbitrary: pre rest g pre' rest' g' rule: rmatch.induct)
  case (1 fl a pre rest g)
  then show ?case by (auto split: list.splits if_splits)
next
  case (3 fl r1 r2 pre rest g)
  from "3.prems" obtain p1 q1 g1 where
    a: "(p1, q1, g1) \<in> set (rmatch fl r1 (pre, rest, g))" and
    b: "(pre', rest', g') \<in> set (rmatch fl r2 (p1, q1, g1))"
    by auto
  from "3.hyps"(1)[OF a] obtain w1 where w1: "p1 = pre @ w1" "rest = w1 @ q1" by blast
  from "3.hyps"(2)[OF a b] obtain w2 where w2: "pre' = p1 @ w2" "q1 = w2 @ rest'" by blast
  from w1 w2 show ?case by simp
next
  case (5 fl gr r pre rest g)
  from star_cases [OF "5.prems"] show ?case
  proof
    assume "(pre', rest', g') = (pre, rest, g)"
    then show ?thesis by simp
  next
    assume "\<exists>p1 q1 g1. (p1, q1, g1) \<in> set (rmatch fl r (pre, rest, g)) \<and> length q1 < length rest \<and>
            (pre', rest', g') \<in> set (rmatch fl (Star gr r) (p1, q1, g1))"
    then obtain p1 q1 g1 where
      a: "(p1, q1, g1) \<in> set (rmatch fl r (pre, rest, g))" and l: "length q1 < length rest" and
      b: "(pre', rest', g') \<in> set (rmatch fl (Star gr r) (p1, q1, g1))"
      by blast
    from "5.hyps"(1)[OF a] obtain w1 where w1: "p1 = pre @ w1" "rest = w1 @ q1" by blast
    have "(p1, q1, g1) \<in> set (filter (\<lambda>(pre', rest', g'). length rest' < length rest) (rmatch fl r (pre, rest, g)))"
      using a l by simp
    from "5.hyps"(2)[OF this b] obtain w2 where w2: "pre' = p1 @ w2" "q1 = w2 @ rest'" by blast
    from w1 w2 show ?thesis by simp
  qed
qed (auto split: if_splits)

lemma rmatch_groups:
  "(pre', rest', g') \<in> set (rmatch fl r (pre, rest, g)) \<Longrightarrow> n \<notin> grps r \<Longrightarrow> g' n = g n"
proof (induction fl r "(pre, rest, g)" arbitrary: pre rest g pre' rest' g' rule: rmatch.induct)
  case (1 fl a pre rest g)
  then show ?case by (auto split: list.splits if_splits)
next
  case (3 fl r1 r2 pre rest g)
  from "3.prems" obtain p1 q1 g1 where
    a: "(p1, q1, g1) \<in> set (rmatch fl r1 (pre, rest, g))" and
    b: "(pre', rest', g') \<in> set (rmatch fl r2 (p1, q1, g1))"
    by auto
  from "3.hyps"(1)[OF a] "3.prems" have "g1 n = g n" by simp
  moreover from "3.hyps"(2)[OF a b] "3.prems" have "g' n = g1 n" by simp
  ultimately show ?case by simp
next
  case (5 fl gr r pre rest g)
  from star_cases [OF "5.prems"(1)] show ?case
  proof
    assume "(pre', rest', g') = (pre, rest, g)"
    then show ?thesis by simp
  next
    assume "\<exists>p1 q1 g1. (p1, q1, g1) \<in> set (rmatch fl r (pre, rest, g)) \<and> length q1 < length rest \<and>
            (pre', rest', g') \<in> set (rmatch fl (Star gr r) (p1, q1, g1))"
    then obtain p1 q1 g1 where
      a: "(p1, q1, g1) \<in> set (rmatch fl r (pre, rest, g))" and l: "length q1 < length rest" and
      b: "(pre', rest', g') \<in> set (rmatch fl (Star gr r) (p1, q1, g1))"
      by blast
    from "5.hyps"(1)[OF a] "5.prems" have "g1 n = g n" by simp
    moreover have "(p1, q1, g1) \<in> set (filter (\<lambda>(pre', rest', g'). length rest' < length rest) (rmatch fl r (pre, rest, g)))"
      using a l by simp
    from "5.hyps"(2)[OF this b] "5.prems" have "g' n = g1 n" by simp
    ultimately show ?thesis by simp
  qed
qed (auto split: if_splits)

lemma star_atom_Nil [simp]:
  "rmatch fl (Star gr (Atom a)) (pre, [], g) = [(pre, [], g)]"
  by (subst rmatch.simps(5)) (cases gr; simp)

lemma star_atom_lazy_Cons [simp]:
  "rmatch fl (Star Lazy (Atom a)) (pre, c # cs, g) =
     (pre, c # cs, g) # (if atom_ok fl a c then rmatch fl (Star Lazy (Atom a)) (pre @ [c], cs, g) else [])"
  by (subst rmatch.simps(5)) simp

lemma star_atom_greedy_Cons [simp]:
  "rmatch fl (Star Greedy (Atom a)) (pre, c # cs, g) =
     (if atom_ok fl a c then rmatch fl (Star Greedy (Atom a)) (pre @ [c], cs, g) else []) @ [(pre, c # cs, g)]"
  by (subst rmatch.simps(5)) simp

lemma star_atom_set:
  "(pre', rest', g') \<in> set (rmatch fl (Star gr (Atom a)) (pre, rest, g)) \<longleftrightarrow>
     (\<exists>w. pre' = pre @ w \<and> rest = w @ rest' \<and> g' = g \<and> list_all (atom_ok fl a) w)"
proof (induction rest arbitrary: pre)
  case Nil
  show ?case by auto
next
  case (Cons c cs)
  show ?case
  proof (cases gr)
    case Greedy
    show ?thesis
      unfolding Greedy star_atom_greedy_Cons
      using Cons [of "pre @ [c]"] unfolding Greedy
      by (auto simp: Cons_eq_append_conv)
  next
    case Lazy
    show ?thesis
      unfolding Lazy star_atom_lazy_Cons
      using Cons [of "pre @ [c]"] unfolding Lazy
      by (auto simp: Cons_eq_append_conv)
  qed
qed

text \<open>The first result of a greedy run followed by \<open>f\<close>, when the run cannot go further.\<close>

lemma greedy_star_first:
  assumes "list_all (atom_ok fl a) u"
    and "v = [] \<or> \<not> atom_ok fl a (hd v)"
    and "f (pre @ u, v, g) = x # xs"
  shows "\<exists>ys. concat (map f (rmatch fl (Star Greedy (Atom a)) (pre, u @ v, g))) = x # ys"
  using assms
proof (induction u arbitrary: pre)
  case Nil
  then show ?case by (cases v) auto
next
  case (Cons c u)
  have "\<exists>ys. concat (map f (rmatch fl (Star Greedy (Atom a)) (pre @ [c], u @ v, g))) = x # ys"
    using Cons.IH [of "pre @ [c]"] Cons.prems by simp
  with Cons.prems(1) show ?case by auto
qed

lemma re_match_SomeD:
  assumes "re_match fl r s pos = Some m"
  shows "\<exists>w rest' g' ys. rmatch fl r (take pos s, drop pos s, Map.empty) = (take pos s @ w, rest', g') # ys \<and>
           drop pos s = w @ rest' \<and> m = g'(0 \<mapsto> w)"
proof -
  from assms obtain pre' rest' g' ys where
    1: "rmatch fl r (take pos s, drop pos s, Map.empty) = (pre', rest', g') # ys" and
    2: "m = g'(0 \<mapsto> drop (length (take pos s)) pre')"
    by (auto simp: re_match_def Let_def split: list.splits)
  from 1 have "(pre', rest', g') \<in> set (rmatch fl r (take pos s, drop pos s, Map.empty))" by simp
  from rmatch_consumes [OF this] obtain w where "pre' = take pos s @ w" "drop pos s = w @ rest'"
    by blast
  with 1 2 show ?thesis by auto
qed

lemma re_match_SomeI:
  assumes "rmatch fl r (take pos s, drop pos s, Map.empty) = (take pos s @ w, rest', g') # ys"
  shows "re_match fl r s pos = Some (g'(0 \<mapsto> w))"
  using assms by (simp add: re_match_def Let_def)

text \<open>Membership in the results of a pattern, piece by piece.\<close>

lemma alt_mem:
  "x \<in> set (rmatch fl (Alt r1 r2) st) \<longleftrightarrow>
     x \<in> set (rmatch fl r1 st) \<or> x \<in> set (rmatch fl r2 st)"
  by simp

lemma seq_E:
  assumes "x \<in> set (rmatch fl (Seq r1 r2) st)"
  obtains p1 q1 g1 where "(p1, q1, g1) \<in> set (rmatch fl r1 st)"
    "x \<in> set (rmatch fl r2 (p1, q1, g1))"
  using assms by auto

lemma seq_atom_E:
  assumes "(p', r', g') \<in> set (rmatch fl (Seq (Atom a) k) (p, r, g))"
  obtains c cs where "r = c # cs" "atom_ok fl a c" "(p', r', g') \<in> set (rmatch fl k (p @ [c], cs, g))"
  using assms by (cases r) (auto split: if_splits)

lemma seq_chr_E:
  assumes "(p', r', g') \<in> set (rmatch fl (Seq (chr d) k) (p, r, g))"
  obtains cs where "r = d # cs" "(p', r', g') \<in> set (rmatch fl k (p @ [d], cs, g))"
  using assms by (cases r) (auto split: if_splits)

lemma seq_star_E:
  assumes "(p', r', g') \<in> set (rmatch fl (Seq (Star gr (Atom a)) k) (p, r, g))"
  obtains w q where "r = w @ q" "list_all (atom_ok fl a) w"
    "(p', r', g') \<in> set (rmatch fl k (p @ w, q, g))"
proof -
  from assms obtain p1 q1 g1 where
    1: "(p1, q1, g1) \<in> set (rmatch fl (Star gr (Atom a)) (p, r, g))" and
    2: "(p', r', g') \<in> set (rmatch fl k (p1, q1, g1))"
    by auto
  from 1 obtain w where "p1 = p @ w" "r = w @ q1" "g1 = g" "list_all (atom_ok fl a) w"
    unfolding star_atom_set by blast
  with 2 that show thesis by blast
qed

lemma chr_E:
  assumes "(p', r', g') \<in> set (rmatch fl (chr d) (p, r, g))"
  obtains "r = d # r'" "p' = p @ [d]" "g' = g"
  using assms by (cases r) (auto split: if_splits)

lemma star_E:
  assumes "(p', r', g') \<in> set (rmatch fl (Star gr (Atom a)) (p, r, g))"
  obtains w where "r = w @ r'" "p' = p @ w" "g' = g" "list_all (atom_ok fl a) w"
  using assms unfolding star_atom_set by blast

lemma grp_E:
  assumes "(p', r', g') \<in> set (rmatch fl (Grp n r) (p, q, g))"
  obtains g0 where "(p', r', g0) \<in> set (rmatch fl r (p, q, g))" "g' = g0(n \<mapsto> drop (length p) p')"
  using assms by auto

lemma eol_E:
  assumes "(p', r', g') \<in> set (rmatch fl Eol (p, r, g))"
  obtains "p' = p" "r' = r" "g' = g" "at_eol fl r"
  using assms by (auto split: if_splits)

lemma bol_E:
  assumes "(p', r', g') \<in> set (rmatch fl Bol (p, r, g))"
  obtains "p' = p" "r' = r" "g' = g" "at_bol fl p"
  using assms by (auto split: if_splits)

lemma bind_assoc:
  "concat (map G (concat (map F xs))) = concat (map (\<lambda>x. concat (map G (F x))) xs)"
  by (induction xs) simp_all

lemma bind_map: "concat (map G (map h xs)) = concat (map (\<lambda>x. G (h x)) xs)"
  by (induction xs) simp_all

lemma ahead_E:
  assumes "x \<in> set (rmatch fl (Ahead r) st)"
  obtains "x = st" "rmatch fl r st \<noteq> []"
  using assms by (auto split: if_splits)

lemma all_spaces:
  "list_all (atom_ok fl (Lit c)) w \<Longrightarrow> w = replicate (length w) c"
  by (induction w) simp_all

lemma col0_line_followsI:
  "\<not> isspace c \<Longrightarrow> col0_line_follows (w @ CHR ''\<newline>'' # c # r)"
proof (induction w)
  case Nil
  then show ?case by simp
next
  case (Cons a w)
  then show ?case by (cases w) simp_all
qed

section \<open>Properties of the rule order\<close>

lemma engine_step_append:
  "engine_step (xs @ ys) table s pos =
     (case engine_step xs table s pos of
        Some r \<Rightarrow> Some r
      | None \<Rightarrow> engine_step ys table s pos)"
  by (induction xs) (simp_all split: option.splits)

lemma attempted_append:
  "attempted (xs @ ys) table s pos =
     (case engine_step xs table s pos of
        Some r \<Rightarrow> attempted xs table s pos
      | None \<Rightarrow> xs @ attempted ys table s pos)"
  by (induction xs) (simp_all split: option.splits)

lemma engine_step_NoneD:
  "engine_step xs table s pos = None \<Longrightarrow> n \<in> set xs \<Longrightarrow> table n s pos = None"
  by (induction xs) (auto split: option.splits)

lemma engine_step_SomeD:
  "engine_step xs table s pos = Some (n, out) \<Longrightarrow> n \<in> set xs \<and> table n s pos = Some out"
  by (induction xs) (auto split: option.splits)

lemma engine_step_SomeI:
  "n \<in> set xs \<Longrightarrow> table n s pos = Some out \<Longrightarrow> \<exists>r. engine_step xs table s pos = Some r"
  by (induction xs) (auto split: option.splits)

lemma rule_of_Some:
  "re_match fl r (drop pos s) 0 = Some m \<Longrightarrow>
     rule_of fl r handler s pos = Some (handler m (), match_end pos m)"
  by (simp add: rule_of_def)

lemma rule_of_None:
  "re_match fl r (drop pos s) 0 = None \<Longrightarrow> rule_of fl r handler s pos = None"
  by (simp add: rule_of_def)

text \<open>
  Claim C4. In the inline parser's active rule order the four rules of this module,
  \<open>inline_math\<close>, \<open>rest_role\<close>, \<open>rest_link\<close>, \<open>eol_literal_marker\<close>, are the first four
  entries, in exactly that order, and the inherited rules follow them unchanged, whatever
  the inherited tuple is. On every input, at every cursor and with any table of rules, one
  step of the engine attempts \<open>inline_math\<close> first, \<open>rest_role\<close> if that fails, then
  \<open>rest_link\<close>, then \<open>eol_literal_marker\<close>, and the inherited rules, in their own order,
  only when all four have failed: the first of the four that matches wins, whatever the
  inherited rules would match.
\<close>

theorem inline_rules_attempted_in_order:
  "take 4 (RestInlineParser_DEFAULT_RULES base) =
     [''inline_math'', ''rest_role'', ''rest_link'', ''eol_literal_marker''] \<and>
   drop 4 (RestInlineParser_DEFAULT_RULES base) = base \<and>
   attempted (RestInlineParser_DEFAULT_RULES base) table s pos =
     (case table ''inline_math'' s pos of
        Some out \<Rightarrow> [''inline_math'']
      | None \<Rightarrow>
     (case table ''rest_role'' s pos of
        Some out \<Rightarrow> [''inline_math'', ''rest_role'']
      | None \<Rightarrow>
     (case table ''rest_link'' s pos of
        Some out \<Rightarrow> [''inline_math'', ''rest_role'', ''rest_link'']
      | None \<Rightarrow>
     (case table ''eol_literal_marker'' s pos of
        Some out \<Rightarrow> [''inline_math'', ''rest_role'', ''rest_link'', ''eol_literal_marker'']
      | None \<Rightarrow>
          [''inline_math'', ''rest_role'', ''rest_link'', ''eol_literal_marker''] @
          attempted base table s pos)))) \<and>
   engine_step (RestInlineParser_DEFAULT_RULES base) table s pos =
     (case table ''inline_math'' s pos of
        Some out \<Rightarrow> Some (''inline_math'', out)
      | None \<Rightarrow>
     (case table ''rest_role'' s pos of
        Some out \<Rightarrow> Some (''rest_role'', out)
      | None \<Rightarrow>
     (case table ''rest_link'' s pos of
        Some out \<Rightarrow> Some (''rest_link'', out)
      | None \<Rightarrow>
     (case table ''eol_literal_marker'' s pos of
        Some out \<Rightarrow> Some (''eol_literal_marker'', out)
      | None \<Rightarrow> engine_step base table s pos))))"
proof -
  let ?promoted = "[''inline_math'', ''rest_role'', ''rest_link'', ''eol_literal_marker'']"
  have rules: "RestInlineParser_DEFAULT_RULES base = ?promoted @ base"
    by (simp add: RestInlineParser_DEFAULT_RULES_def)
  have prefix: "take 4 (RestInlineParser_DEFAULT_RULES base) = ?promoted"
    and suffix: "drop 4 (RestInlineParser_DEFAULT_RULES base) = base"
    unfolding rules by simp_all
  have tried: "attempted (?promoted @ base) table s pos =
     (case engine_step ?promoted table s pos of
        Some r \<Rightarrow> attempted ?promoted table s pos
      | None \<Rightarrow> ?promoted @ attempted base table s pos)"
    by (rule attempted_append)
  have won: "engine_step (?promoted @ base) table s pos =
     (case engine_step ?promoted table s pos of
        Some r \<Rightarrow> Some r
      | None \<Rightarrow> engine_step base table s pos)"
    by (rule engine_step_append)
  show ?thesis
  proof (intro conjI)
    show "take 4 (RestInlineParser_DEFAULT_RULES base) = ?promoted" by (rule prefix)
    show "drop 4 (RestInlineParser_DEFAULT_RULES base) = base" by (rule suffix)
    show "attempted (RestInlineParser_DEFAULT_RULES base) table s pos =
     (case table ''inline_math'' s pos of
        Some out \<Rightarrow> [''inline_math'']
      | None \<Rightarrow>
     (case table ''rest_role'' s pos of
        Some out \<Rightarrow> [''inline_math'', ''rest_role'']
      | None \<Rightarrow>
     (case table ''rest_link'' s pos of
        Some out \<Rightarrow> [''inline_math'', ''rest_role'', ''rest_link'']
      | None \<Rightarrow>
     (case table ''eol_literal_marker'' s pos of
        Some out \<Rightarrow> [''inline_math'', ''rest_role'', ''rest_link'', ''eol_literal_marker'']
      | None \<Rightarrow>
          [''inline_math'', ''rest_role'', ''rest_link'', ''eol_literal_marker''] @
          attempted base table s pos))))"
      unfolding rules tried by (simp split: option.splits)
    show "engine_step (RestInlineParser_DEFAULT_RULES base) table s pos =
     (case table ''inline_math'' s pos of
        Some out \<Rightarrow> Some (''inline_math'', out)
      | None \<Rightarrow>
     (case table ''rest_role'' s pos of
        Some out \<Rightarrow> Some (''rest_role'', out)
      | None \<Rightarrow>
     (case table ''rest_link'' s pos of
        Some out \<Rightarrow> Some (''rest_link'', out)
      | None \<Rightarrow>
     (case table ''eol_literal_marker'' s pos of
        Some out \<Rightarrow> Some (''eol_literal_marker'', out)
      | None \<Rightarrow> engine_step base table s pos))))"
      unfolding rules won by (simp split: option.splits)
  qed
qed

theorem inline_rules_attempted_in_order_witness:
  "attempted (RestInlineParser_DEFAULT_RULES [''escape'', ''codespan''])
     (RestInlineParser_rules no_flags example_inline_table) [CHR 0x60, CHR ''$'', CHR ''x'', CHR ''$'', CHR 0x60] 0 =
     [''inline_math''] \<and>
   engine_step (RestInlineParser_DEFAULT_RULES [''escape'', ''codespan''])
     (RestInlineParser_rules no_flags example_inline_table) [CHR 0x60, CHR ''$'', CHR ''x'', CHR ''$'', CHR 0x60] 0 =
     Some (''inline_math'', [PyStr ''inline_math'', PyStr ''x''], 5) \<and>
   example_inline_table ''codespan'' [CHR 0x60, CHR ''$'', CHR ''x'', CHR ''$'', CHR 0x60] 0 =
     Some ([PyStr ''codespan''], 5) \<and>
   attempted (RestInlineParser_DEFAULT_RULES [''escape'', ''codespan''])
     (RestInlineParser_rules no_flags example_inline_table) [CHR 0x60, CHR ''x'', CHR 0x60] 0 =
     [''inline_math'', ''rest_role'', ''rest_link'', ''eol_literal_marker'', ''escape'', ''codespan''] \<and>
   engine_step (RestInlineParser_DEFAULT_RULES [''escape'', ''codespan''])
     (RestInlineParser_rules no_flags example_inline_table) [CHR 0x60, CHR ''x'', CHR 0x60] 0 =
     Some (''codespan'', [PyStr ''codespan''], 3)"
proof -
  let ?T = "RestInlineParser_rules no_flags example_inline_table"
  let ?a = "[CHR 0x60, CHR ''$'', CHR ''x'', CHR ''$'', CHR 0x60]"
  let ?b = "[CHR 0x60, CHR ''x'', CHR 0x60]"
  have a1: "?T ''inline_math'' ?a 0 = Some ([PyStr ''inline_math'', PyStr ''x''], 5)"
    by (simp add: RestInlineParser_rules_def rule_of_def re_match_def INLINE_MATH_def no_flags_def
        parse_inline_math_def group_def match_end_def)
  have a2: "example_inline_table ''codespan'' ?a 0 = Some ([PyStr ''codespan''], 5)"
    by (simp add: example_inline_table_def)
  have b1: "?T ''inline_math'' ?b 0 = None"
    by (simp add: RestInlineParser_rules_def rule_of_def re_match_def INLINE_MATH_def no_flags_def)
  have b2: "?T ''rest_role'' ?b 0 = None"
    by (simp add: RestInlineParser_rules_def rule_of_def re_match_def REST_ROLE_def Plus_def
        no_flags_def rmatch_Star)
  have b3: "?T ''rest_link'' ?b 0 = None"
    by (simp add: RestInlineParser_rules_def rule_of_def re_match_def REST_LINK_def no_flags_def)
  have b4: "?T ''eol_literal_marker'' ?b 0 = None"
    by (simp add: RestInlineParser_rules_def rule_of_def re_match_def EOL_LITERAL_MARKER_def
        Plus_def Opt_def no_flags_def isspace_def rmatch_Star)
  have b5: "attempted [''escape'', ''codespan''] ?T ?b 0 = [''escape'', ''codespan'']"
    by (simp add: RestInlineParser_rules_def example_inline_table_def)
  have b6: "engine_step [''escape'', ''codespan''] ?T ?b 0 = Some (''codespan'', [PyStr ''codespan''], 3)"
    by (simp add: RestInlineParser_rules_def example_inline_table_def)
  from inline_rules_attempted_in_order [of "[''escape'', ''codespan'']" ?T ?a 0]
    inline_rules_attempted_in_order [of "[''escape'', ''codespan'']" ?T ?b 0]
  show ?thesis
    unfolding a1 b1 b2 b3 b4 b5 b6 using a2 by simp
qed

text \<open>
  Claim C1, as the code has it. In the block parser's active rule order the inherited
  rules come first, unchanged, and \<open>directive\<close>, \<open>oneline_directive\<close>, \<open>rest_code_block\<close>
  are appended after them: every rule of the inherited tuple is tried before \<open>directive\<close>,
  and \<open>directive\<close> is tried before none of them. So, on every input, at every cursor and
  with any table of rules, where a rule of the inherited tuple matches, the match is
  claimed by a rule of the inherited tuple, whatever \<open>directive\<close> does there. The default
  paragraph consumption is not a rule of the tuple but the fallback of a step at which no
  rule matches: that fallback is reached only where \<open>directive\<close> has failed as well.
\<close>

theorem block_rules_appended:
  assumes "b \<in> set base" and "''directive'' \<notin> set base"
  shows "RestBlockParser_DEFAULT_RULES base =
           base @ [''directive'', ''oneline_directive'', ''rest_code_block''] \<and>
         tried_before b ''directive'' (RestBlockParser_DEFAULT_RULES base) \<and>
         \<not> tried_before ''directive'' b (RestBlockParser_DEFAULT_RULES base) \<and>
         (\<forall>out. table b s pos = Some out \<longrightarrow>
            (\<exists>b' out'. b' \<in> set base \<and> table b' s pos = Some out' \<and>
               engine_step (RestBlockParser_DEFAULT_RULES base) table s pos = Some (b', out'))) \<and>
         (engine_step (RestBlockParser_DEFAULT_RULES base) table s pos = None \<longrightarrow>
            table ''directive'' s pos = None)"
proof -
  have 1: "takeWhile (\<lambda>x. x \<noteq> ''directive'') (RestBlockParser_DEFAULT_RULES base) = base"
    using assms(2) by (simp add: RestBlockParser_DEFAULT_RULES_def takeWhile_append)
  have 2: "takeWhile (\<lambda>x. x \<noteq> b) (RestBlockParser_DEFAULT_RULES base) = takeWhile (\<lambda>x. x \<noteq> b) base"
    unfolding RestBlockParser_DEFAULT_RULES_def by (rule takeWhile_append1 [OF assms(1)]) simp
  have 3: "''directive'' \<notin> set (takeWhile (\<lambda>x. x \<noteq> b) base)"
    using assms(2) set_takeWhileD by fastforce
  have 4: "RestBlockParser_DEFAULT_RULES base =
             base @ [''directive'', ''oneline_directive'', ''rest_code_block'']"
    by (simp add: RestBlockParser_DEFAULT_RULES_def)
  have 5: "tried_before b ''directive'' (RestBlockParser_DEFAULT_RULES base)"
    unfolding tried_before_def 1 using assms(1) by (simp add: RestBlockParser_DEFAULT_RULES_def)
  have 6: "\<not> tried_before ''directive'' b (RestBlockParser_DEFAULT_RULES base)"
    unfolding tried_before_def 2 using 3 by simp
  have 7: "\<exists>b' out'. b' \<in> set base \<and> table b' s pos = Some out' \<and>
               engine_step (RestBlockParser_DEFAULT_RULES base) table s pos = Some (b', out')"
    if "table b s pos = Some out" for out
  proof -
    from engine_step_SomeI [of b base table s pos out] assms(1) that
    obtain r where r: "engine_step base table s pos = Some r"
      by blast
    obtain b' out' where "r = (b', out')" by (cases r)
    with r have e: "engine_step base table s pos = Some (b', out')" by simp
    from engine_step_SomeD [OF e] have "b' \<in> set base" "table b' s pos = Some out'" by simp_all
    moreover have "engine_step (RestBlockParser_DEFAULT_RULES base) table s pos = Some (b', out')"
      unfolding 4 engine_step_append e by simp
    ultimately show ?thesis by blast
  qed
  have 8: "table ''directive'' s pos = None"
    if "engine_step (RestBlockParser_DEFAULT_RULES base) table s pos = None"
    by (rule engine_step_NoneD [OF that]) (simp add: RestBlockParser_DEFAULT_RULES_def)
  from 4 5 6 7 8 show ?thesis by blast
qed

theorem block_rules_appended_witness:
  "''list'' \<in> set example_block_rules \<and> ''directive'' \<notin> set example_block_rules \<and>
   tried_before ''list'' ''directive'' (RestBlockParser_DEFAULT_RULES example_block_rules) \<and>
   RestBlockParser_rules example_block_table ''list'' ''- a\<newline>'' 0 = Some ([(''type'', PyStr ''list'')], 4) \<and>
   (\<exists>b' out'. b' \<in> set example_block_rules \<and>
      engine_step (RestBlockParser_DEFAULT_RULES example_block_rules)
        (RestBlockParser_rules example_block_table) ''- a\<newline>'' 0 = Some (b', out')) \<and>
   engine_step (RestBlockParser_DEFAULT_RULES example_block_rules)
     (RestBlockParser_rules example_block_table) ''plain\<newline>'' 0 = None \<and>
   RestBlockParser_rules example_block_table ''directive'' ''plain\<newline>'' 0 = None"
proof -
  let ?T = "RestBlockParser_rules example_block_table"
  have a: "''list'' \<in> set example_block_rules" by (simp add: example_block_rules_def)
  have b: "''directive'' \<notin> set example_block_rules" by (simp add: example_block_rules_def)
  have c: "?T ''list'' ''- a\<newline>'' 0 = Some ([(''type'', PyStr ''list'')], 4)"
    by (simp add: RestBlockParser_rules_def example_block_table_def)
  have d: "engine_step (RestBlockParser_DEFAULT_RULES example_block_rules) ?T ''plain\<newline>'' 0 = None"
    by (simp add: RestBlockParser_DEFAULT_RULES_def example_block_rules_def RestBlockParser_rules_def
        example_block_table_def rule_of_def re_match_def DIRECTIVE_def ONELINE_DIRECTIVE_def
        REST_CODE_BLOCK_def block_flags_def at_bol_def)
  from block_rules_appended [OF a b, of ?T "''- a\<newline>''" 0]
    block_rules_appended [OF a b, of ?T "''plain\<newline>''" 0]
  show ?thesis using a b c d by blast
qed

text \<open>
  The claim as the specification states it, that \<open>directive\<close> is tried before the inherited
  rules, fails: with the block rules of mistune, \<open>list\<close> is tried before \<open>directive\<close>, and
  \<open>directive\<close> is not tried before \<open>list\<close>.
\<close>

theorem directive_before_base_counterexample:
  "tried_before ''list'' ''directive'' (RestBlockParser_DEFAULT_RULES example_block_rules) \<and>
   \<not> tried_before ''directive'' ''list'' (RestBlockParser_DEFAULT_RULES example_block_rules)"
  by (simp add: tried_before_def RestBlockParser_DEFAULT_RULES_def example_block_rules_def)

section \<open>Properties of the inline handlers\<close>

lemma inline_math_results:
  assumes "(pre', rest', g') \<in> set (rmatch fl INLINE_MATH (pre, rest, g))"
  shows "\<exists>e. pre' = pre @ [CHR 0x60, CHR ''$''] @ e @ [CHR ''$'', CHR 0x60] \<and> g' 2 = Some e"
  using assms unfolding INLINE_MATH_def
  by (auto simp: star_atom_set split: list.splits if_splits)

text \<open>
  Claim C9. Whenever \<open>INLINE_MATH\<close> matches, under any flags and at any cursor, the matched
  text is a backtick, \<open>$\<close>, an expression, \<open>$\<close>, a backtick, and the handler returns the
  element \<open>("inline_math", expr)\<close> where \<open>expr\<close> is exactly the text between the two \<open>$\<close>:
  group 2, without the backticks and the \<open>$\<close> markers. The witness is the input of the
  claim, a backtick-delimited \<open>$x^2$\<close>, which yields \<open>("inline_math", "x^2")\<close>.
\<close>

theorem inline_math_strips_delimiters:
  assumes "re_match fl INLINE_MATH s pos = Some m"
  shows "\<exists>expr rest'. drop pos s = [CHR 0x60, CHR ''$''] @ expr @ [CHR ''$'', CHR 0x60] @ rest' \<and>
           m 0 = Some ([CHR 0x60, CHR ''$''] @ expr @ [CHR ''$'', CHR 0x60]) \<and>
           parse_inline_math m state = [PyStr ''inline_math'', PyStr expr]"
proof -
  from re_match_SomeD [OF assms] obtain w rest' g' ys where
    1: "rmatch fl INLINE_MATH (take pos s, drop pos s, Map.empty) = (take pos s @ w, rest', g') # ys" and
    2: "drop pos s = w @ rest'" and 3: "m = g'(0 \<mapsto> w)"
    by blast
  from 1 have "(take pos s @ w, rest', g') \<in> set (rmatch fl INLINE_MATH (take pos s, drop pos s, Map.empty))"
    by simp
  from inline_math_results [OF this] obtain e where
    4: "w = [CHR 0x60, CHR ''$''] @ e @ [CHR ''$'', CHR 0x60]" and 5: "g' 2 = Some e"
    by auto
  from 2 3 4 5 show ?thesis
    by (auto simp: parse_inline_math_def group_def)
qed

theorem inline_math_strips_delimiters_witness:
  "\<exists>m. re_match no_flags INLINE_MATH ([CHR 0x60] @ ''$x^2$'' @ [CHR 0x60]) 0 = Some m \<and>
       m 0 = Some ([CHR 0x60] @ ''$x^2$'' @ [CHR 0x60]) \<and>
       parse_inline_math m () = [PyStr ''inline_math'', PyStr ''x^2'']"
proof -
  have a: "re_match no_flags INLINE_MATH ([CHR 0x60] @ ''$x^2$'' @ [CHR 0x60]) 0 =
             Some ([2 \<mapsto> ''x^2'', 1 \<mapsto> ''x^2$'' @ [CHR 0x60], 0 \<mapsto> [CHR 0x60] @ ''$x^2$'' @ [CHR 0x60]])"
    by (simp add: re_match_def INLINE_MATH_def no_flags_def)
  from inline_math_strips_delimiters [OF a, of "()"] show ?thesis
    using a by (simp add: parse_inline_math_def group_def)
qed

lemma rest_role_results:
  assumes "(pre', rest', g') \<in> set (rmatch fl REST_ROLE (pre, rest, g))"
  shows "(\<exists>a b. pre' = pre @ '':'' @ a @ [CHR '':'', CHR 0x60] @ b @ [CHR 0x60]) \<or>
         (\<exists>c d. c \<noteq> [] \<and> CHR 0x60 \<notin> set c \<and>
                pre' = pre @ [CHR 0x60] @ c @ [CHR 0x60, CHR '':''] @ d @ '':'')"
proof -
  let ?A = "cat [chr CHR '':'', Star Lazy (Atom Dot), chr CHR '':'', chr CHR 0x60,
               Star Lazy (Atom Dot), chr CHR 0x60]"
  let ?B = "cat [chr CHR 0x60, Plus Greedy (Atom (NotCls [One CHR 0x60])), chr CHR 0x60,
               chr CHR '':'', Star Lazy (Atom Dot), chr CHR '':'']"
  from assms consider
    (A) "(pre', rest', g') \<in> set (rmatch fl ?A (pre, rest, g))" |
    (B) "(pre', rest', g') \<in> set (rmatch fl ?B (pre, rest, g))"
    unfolding REST_ROLE_def alt_mem by blast
  then show ?thesis
  proof cases
    case A
    from A [unfolded cat.simps] obtain r1 where
      1: "(pre', rest', g') \<in> set (rmatch fl
            (Seq (Star Lazy (Atom Dot)) (Seq (chr CHR '':'') (Seq (chr CHR 0x60)
              (Seq (Star Lazy (Atom Dot)) (chr CHR 0x60))))) (pre @ '':'', r1, g))"
      by (rule seq_chr_E)
    from 1 obtain a r2 where
      2: "(pre', rest', g') \<in> set (rmatch fl
            (Seq (chr CHR '':'') (Seq (chr CHR 0x60)
              (Seq (Star Lazy (Atom Dot)) (chr CHR 0x60)))) ((pre @ '':'') @ a, r2, g))"
      by (rule seq_star_E)
    from 2 obtain r3 where
      3: "(pre', rest', g') \<in> set (rmatch fl
            (Seq (chr CHR 0x60) (Seq (Star Lazy (Atom Dot)) (chr CHR 0x60)))
            (((pre @ '':'') @ a) @ '':'', r3, g))"
      by (rule seq_chr_E)
    from 3 obtain r4 where
      4: "(pre', rest', g') \<in> set (rmatch fl
            (Seq (Star Lazy (Atom Dot)) (chr CHR 0x60))
            ((((pre @ '':'') @ a) @ '':'') @ [CHR 0x60], r4, g))"
      by (rule seq_chr_E)
    from 4 obtain b r5 where
      5: "(pre', rest', g') \<in> set (rmatch fl (chr CHR 0x60)
            (((((pre @ '':'') @ a) @ '':'') @ [CHR 0x60]) @ b, r5, g))"
      by (rule seq_star_E)
    from 5 have "pre' = (((((pre @ '':'') @ a) @ '':'') @ [CHR 0x60]) @ b) @ [CHR 0x60]"
      by (rule chr_E)
    then have "pre' = pre @ '':'' @ a @ [CHR '':'', CHR 0x60] @ b @ [CHR 0x60]" by simp
    then show ?thesis by blast
  next
    case B
    from B [unfolded cat.simps Plus_def] obtain r1 where
      1: "(pre', rest', g') \<in> set (rmatch fl
            (Seq (Seq (Atom (NotCls [One CHR 0x60])) (Star Greedy (Atom (NotCls [One CHR 0x60]))))
              (Seq (chr CHR 0x60) (Seq (chr CHR '':'') (Seq (Star Lazy (Atom Dot)) (chr CHR '':'')))))
            (pre @ [CHR 0x60], r1, g))"
      by (rule seq_chr_E)
    from 1 obtain p2 q2 g2 where
      2: "(p2, q2, g2) \<in> set (rmatch fl
            (Seq (Atom (NotCls [One CHR 0x60])) (Star Greedy (Atom (NotCls [One CHR 0x60]))))
            (pre @ [CHR 0x60], r1, g))" and
      3: "(pre', rest', g') \<in> set (rmatch fl
            (Seq (chr CHR 0x60) (Seq (chr CHR '':'') (Seq (Star Lazy (Atom Dot)) (chr CHR '':''))))
            (p2, q2, g2))"
      by (rule seq_E)
    from 2 obtain u us where
      4: "atom_ok fl (NotCls [One CHR 0x60]) u" and
      5: "(p2, q2, g2) \<in> set (rmatch fl (Star Greedy (Atom (NotCls [One CHR 0x60])))
            ((pre @ [CHR 0x60]) @ [u], us, g))"
      by (rule seq_atom_E)
    from 5 obtain w where
      6: "p2 = ((pre @ [CHR 0x60]) @ [u]) @ w" "list_all (atom_ok fl (NotCls [One CHR 0x60])) w"
      by (rule star_E)
    from 3 obtain r3 where
      7: "(pre', rest', g') \<in> set (rmatch fl
            (Seq (chr CHR '':'') (Seq (Star Lazy (Atom Dot)) (chr CHR '':'')))
            (p2 @ [CHR 0x60], r3, g2))"
      by (rule seq_chr_E)
    from 7 obtain r4 where
      8: "(pre', rest', g') \<in> set (rmatch fl (Seq (Star Lazy (Atom Dot)) (chr CHR '':''))
            ((p2 @ [CHR 0x60]) @ '':'', r4, g2))"
      by (rule seq_chr_E)
    from 8 obtain d r5 where
      9: "(pre', rest', g') \<in> set (rmatch fl (chr CHR '':'')
            (((p2 @ [CHR 0x60]) @ '':'') @ d, r5, g2))"
      by (rule seq_star_E)
    from 9 have "pre' = (((p2 @ [CHR 0x60]) @ '':'') @ d) @ '':''"
      by (rule chr_E)
    with 6 have "pre' = pre @ [CHR 0x60] @ (u # w) @ [CHR 0x60, CHR '':''] @ d @ '':''"
      by simp
    moreover from 4 6 have "u # w \<noteq> [] \<and> CHR 0x60 \<notin> set (u # w)"
      by (auto simp: list_all_iff)
    ultimately show ?thesis by blast
  qed
qed

text \<open>
  Claim C10. Whenever \<open>REST_ROLE\<close> matches, in either of its two forms (a role between
  colons followed by a backtick-quoted text, or a backtick-quoted text followed by a role
  between colons), the handler returns \<open>("rest_role", raw_text)\<close> where \<open>raw_text\<close> is the whole
  matched text, unmodified and not decomposed. The witness is the input of the claim,
  \<open>:py:func:\<close> followed by a backtick-quoted \<open>foo\<close>: the rule tried before \<open>rest_role\<close> does not
  match it, and \<open>rest_role\<close> matches the whole input as one element.
\<close>

theorem rest_role_passthrough:
  assumes "re_match fl REST_ROLE s pos = Some m"
  shows "\<exists>raw_text rest'. drop pos s = raw_text @ rest' \<and> m 0 = Some raw_text \<and>
           parse_rest_role m state = [PyStr ''rest_role'', PyStr raw_text] \<and>
           ((\<exists>a b. raw_text = '':'' @ a @ [CHR '':'', CHR 0x60] @ b @ [CHR 0x60]) \<or>
            (\<exists>c d. c \<noteq> [] \<and> CHR 0x60 \<notin> set c \<and>
                   raw_text = [CHR 0x60] @ c @ [CHR 0x60, CHR '':''] @ d @ '':''))"
proof -
  from re_match_SomeD [OF assms] obtain w rest' g' ys where
    1: "rmatch fl REST_ROLE (take pos s, drop pos s, Map.empty) = (take pos s @ w, rest', g') # ys" and
    2: "drop pos s = w @ rest'" and 3: "m = g'(0 \<mapsto> w)"
    by blast
  from 1 have "(take pos s @ w, rest', g') \<in> set (rmatch fl REST_ROLE (take pos s, drop pos s, Map.empty))"
    by simp
  from rest_role_results [OF this]
  have 4: "(\<exists>a b. w = '':'' @ a @ [CHR '':'', CHR 0x60] @ b @ [CHR 0x60]) \<or>
         (\<exists>c d. c \<noteq> [] \<and> CHR 0x60 \<notin> set c \<and>
                w = [CHR 0x60] @ c @ [CHR 0x60, CHR '':''] @ d @ '':'')"
    by simp
  have 5: "m 0 = Some w" "parse_rest_role m state = [PyStr ''rest_role'', PyStr w]"
    using 3 by (simp_all add: parse_rest_role_def group_def)
  show ?thesis
    by (rule exI [of _ w], rule exI [of _ rest']) (use 2 4 5 in simp)
qed

theorem rest_role_passthrough_witness:
  "\<exists>m. re_match no_flags REST_ROLE ('':py:func:'' @ [CHR 0x60] @ ''foo'' @ [CHR 0x60]) 0 = Some m \<and>
       re_match no_flags INLINE_MATH ('':py:func:'' @ [CHR 0x60] @ ''foo'' @ [CHR 0x60]) 0 = None \<and>
       parse_rest_role m () =
         [PyStr ''rest_role'', PyStr ('':py:func:'' @ [CHR 0x60] @ ''foo'' @ [CHR 0x60])]"
proof -
  have a: "re_match no_flags REST_ROLE ('':py:func:'' @ [CHR 0x60] @ ''foo'' @ [CHR 0x60]) 0 =
             Some ([0 \<mapsto> '':py:func:'' @ [CHR 0x60] @ ''foo'' @ [CHR 0x60]])"
    by (simp add: re_match_def REST_ROLE_def Plus_def no_flags_def)
  have b: "re_match no_flags INLINE_MATH ('':py:func:'' @ [CHR 0x60] @ ''foo'' @ [CHR 0x60]) 0 = None"
    by (simp add: re_match_def INLINE_MATH_def no_flags_def)
  from rest_role_passthrough [OF a, of "()"] show ?thesis
    using a b by (simp add: parse_rest_role_def group_def)
qed

lemma eol_literal_marker_results:
  assumes "(pre', rest', g') \<in> set (rmatch fl EOL_LITERAL_MARKER (pre, rest, g))"
  shows "(g' 1 = g 1 \<and> (\<exists>r. rest = ''::'' @ r)) \<or>
         (\<exists>ws r. ws \<noteq> [] \<and> list_all isspace ws \<and> g' 1 = Some ws \<and> rest = ws @ ''::'' @ r)"
proof -
  let ?K = "Seq (chr CHR '':'') (Seq (chr CHR '':'') (Seq (Star Greedy (Atom Space)) Eol))"
  from assms [unfolded EOL_LITERAL_MARKER_def cat.simps Opt_def Plus_def] obtain p1 q1 g1 where
    1: "(p1, q1, g1) \<in> set (rmatch fl (Alt (Grp 1 (Seq (Atom Space) (Star Greedy (Atom Space)))) Eps)
          (pre, rest, g))" and
    2: "(pre', rest', g') \<in> set (rmatch fl ?K (p1, q1, g1))"
    by (rule seq_E)
  from 2 obtain r2 where 3: "q1 = CHR '':'' # r2" and
    4: "(pre', rest', g') \<in> set (rmatch fl (Seq (chr CHR '':'') (Seq (Star Greedy (Atom Space)) Eol))
          (p1 @ '':'', r2, g1))"
    by (rule seq_chr_E)
  from 4 obtain r3 where 5: "r2 = CHR '':'' # r3" and
    6: "(pre', rest', g') \<in> set (rmatch fl (Seq (Star Greedy (Atom Space)) Eol)
          ((p1 @ '':'') @ '':'', r3, g1))"
    by (rule seq_chr_E)
  from 6 obtain w r4 where
    7: "(pre', rest', g') \<in> set (rmatch fl Eol ((((p1 @ '':'') @ '':'') @ w), r4, g1))"
    by (rule seq_star_E)
  from 7 have 8: "g' = g1" by (rule eol_E)
  from 3 5 have 9: "q1 = ''::'' @ r3" by simp
  from 1 [unfolded alt_mem] show ?thesis
  proof
    assume "(p1, q1, g1) \<in> set (rmatch fl (Eps) (pre, rest, g))"
    then have "q1 = rest" "g1 = g" by simp_all
    with 8 9 show ?thesis by blast
  next
    assume "(p1, q1, g1) \<in> set (rmatch fl (Grp 1 (Seq (Atom Space) (Star Greedy (Atom Space))))
          (pre, rest, g))"
    then obtain g0 where
      a: "(p1, q1, g0) \<in> set (rmatch fl (Seq (Atom Space) (Star Greedy (Atom Space))) (pre, rest, g))" and
      b: "g1 = g0(1 \<mapsto> drop (length pre) p1)"
      by (rule grp_E)
    from a obtain c cs where c: "rest = c # cs" "atom_ok fl Space c" and
      d: "(p1, q1, g0) \<in> set (rmatch fl (Star Greedy (Atom Space)) (pre @ [c], cs, g))"
      by (rule seq_atom_E)
    from d obtain v where e: "cs = v @ q1" "p1 = (pre @ [c]) @ v" "list_all (atom_ok fl Space) v"
      by (rule star_E)
    from b e have "g1 1 = Some (c # v)" by simp
    moreover from c e have "c # v \<noteq> [] \<and> list_all isspace (c # v)"
      by (simp add: list_all_iff)
    moreover from c e 9 have "rest = (c # v) @ ''::'' @ r3" by simp
    ultimately show ?thesis using 8 by blast
  qed
qed

text \<open>
  Claim C5. Whenever \<open>EOL_LITERAL_MARKER\<close> matches, under any flags and at any cursor, one of
  two cases holds. Either the optional group of leading whitespace took no part: then the
  text at the cursor starts with \<open>::\<close> and the handler returns \<open>("eol_literal_marker", ":")\<close>.
  Or the group matched a non-empty run of whitespace that stands before the \<open>::\<close>: then the
  handler returns \<open>("eol_literal_marker", "")\<close>. The witness holds the two inputs of the
  claim, \<open>see::\<close> and \<open>see ::\<close>, with the cursor after \<open>see\<close>.
\<close>

theorem eol_literal_marker_asymmetry:
  assumes "re_match fl EOL_LITERAL_MARKER s pos = Some m"
  shows "(m 1 = None \<and> (\<exists>r. drop pos s = ''::'' @ r) \<and>
            parse_eol_literal_marker m state = [PyStr ''eol_literal_marker'', PyStr '':'']) \<or>
         (\<exists>ws r. ws \<noteq> [] \<and> list_all isspace ws \<and> m 1 = Some ws \<and> drop pos s = ws @ ''::'' @ r \<and>
            parse_eol_literal_marker m state = [PyStr ''eol_literal_marker'', PyStr []])"
proof -
  from re_match_SomeD [OF assms] obtain w rest' g' ys where
    1: "rmatch fl EOL_LITERAL_MARKER (take pos s, drop pos s, Map.empty) = (take pos s @ w, rest', g') # ys" and
    2: "drop pos s = w @ rest'" and 3: "m = g'(0 \<mapsto> w)"
    by blast
  from 1 have "(take pos s @ w, rest', g') \<in> set (rmatch fl EOL_LITERAL_MARKER (take pos s, drop pos s, Map.empty))"
    by simp
  from eol_literal_marker_results [OF this] show ?thesis
  proof
    assume "g' 1 = Map.empty 1 \<and> (\<exists>r. drop pos s = ''::'' @ r)"
    with 3 have "m 1 = None \<and> (\<exists>r. drop pos s = ''::'' @ r) \<and>
            parse_eol_literal_marker m state = [PyStr ''eol_literal_marker'', PyStr '':'']"
      by (simp add: parse_eol_literal_marker_def group_def)
    then show ?thesis by (rule disjI1)
  next
    assume "\<exists>ws r. ws \<noteq> [] \<and> list_all isspace ws \<and> g' 1 = Some ws \<and> drop pos s = ws @ ''::'' @ r"
    then obtain ws r where a: "ws \<noteq> []" "list_all isspace ws" "g' 1 = Some ws"
      "drop pos s = ws @ ''::'' @ r"
      by blast
    from a(3) 3 have "m 1 = Some ws"
      "parse_eol_literal_marker m state = [PyStr ''eol_literal_marker'', PyStr []]"
      by (simp_all add: parse_eol_literal_marker_def group_def)
    with a have "\<exists>ws r. ws \<noteq> [] \<and> list_all isspace ws \<and> m 1 = Some ws \<and> drop pos s = ws @ ''::'' @ r \<and>
            parse_eol_literal_marker m state = [PyStr ''eol_literal_marker'', PyStr []]"
      by blast
    then show ?thesis by (rule disjI2)
  qed
qed

theorem eol_literal_marker_asymmetry_witness:
  "(\<exists>m. re_match no_flags EOL_LITERAL_MARKER ''see::'' 3 = Some m \<and> m 1 = None \<and>
        parse_eol_literal_marker m () = [PyStr ''eol_literal_marker'', PyStr '':'']) \<and>
   (\<exists>m. re_match no_flags EOL_LITERAL_MARKER ''see ::'' 3 = Some m \<and> m 1 = Some '' '' \<and>
        parse_eol_literal_marker m () = [PyStr ''eol_literal_marker'', PyStr []])"
proof -
  have a: "re_match no_flags EOL_LITERAL_MARKER ''see::'' 3 = Some [0 \<mapsto> ''::'']"
    by (simp add: re_match_def EOL_LITERAL_MARKER_def Opt_def Plus_def no_flags_def at_eol_def isspace_def)
  have b: "re_match no_flags EOL_LITERAL_MARKER ''see ::'' 3 = Some [1 \<mapsto> '' '', 0 \<mapsto> '' ::'']"
    by (simp add: re_match_def EOL_LITERAL_MARKER_def Opt_def Plus_def no_flags_def at_eol_def isspace_def)
  from eol_literal_marker_asymmetry [OF a, of "()"]
  have "parse_eol_literal_marker [0 \<mapsto> ''::''] () = [PyStr ''eol_literal_marker'', PyStr '':'']"
    by simp
  moreover from eol_literal_marker_asymmetry [OF b, of "()"]
  have "parse_eol_literal_marker [1 \<mapsto> '' '', 0 \<mapsto> '' ::''] () = [PyStr ''eol_literal_marker'', PyStr []]"
    by simp
  ultimately show ?thesis using a b by simp
qed

section \<open>Properties of the plain-text pattern\<close>

lemma stop_alt1:
  "rmatch fl (Atom (Cls [One CHR 0x5C, One CHR ''<'', One CHR ''!'', One CHR ''['', One CHR '':'',
                     One CHR ''_'', One CHR ''*'', One CHR 0x60, One CHR ''~'', One CHR '' ''])) (p, r, g) \<noteq> [] \<longleftrightarrow>
     (r \<noteq> [] \<and> hd r \<in> set stop_chars)"
  by (cases r) (auto simp: stop_chars_def)

lemma stop_alt2_I1:
  "rmatch fl (cat [chr CHR ''h'', chr CHR ''t'', chr CHR ''t'', chr CHR ''p'', Opt (chr CHR ''s''),
               chr CHR '':'', chr CHR ''/'', chr CHR ''/'']) (p, ''http://'' @ r, g) \<noteq> []"
  by (simp add: Opt_def)

lemma stop_alt2_I2:
  "rmatch fl (cat [chr CHR ''h'', chr CHR ''t'', chr CHR ''t'', chr CHR ''p'', Opt (chr CHR ''s''),
               chr CHR '':'', chr CHR ''/'', chr CHR ''/'']) (p, ''https://'' @ r, g) \<noteq> []"
  by (simp add: Opt_def)

lemma stop_alt2_D:
  assumes "x \<in> set (rmatch fl (cat [chr CHR ''h'', chr CHR ''t'', chr CHR ''t'', chr CHR ''p'', Opt (chr CHR ''s''),
               chr CHR '':'', chr CHR ''/'', chr CHR ''/'']) (p, r, g))"
  shows "take 7 r = ''http://'' \<or> take 8 r = ''https://''"
proof -
  obtain p' r' g' where x: "x = (p', r', g')" by (cases x)
  let ?K = "Seq (chr CHR '':'') (Seq (chr CHR ''/'') (chr CHR ''/''))"
  from assms [unfolded x cat.simps Opt_def] obtain r1 where 1: "r = CHR ''h'' # r1" and
    a1: "(p', r', g') \<in> set (rmatch fl (Seq (chr CHR ''t'') (Seq (chr CHR ''t'') (Seq (chr CHR ''p'')
           (Seq (Alt (chr CHR ''s'') Eps) ?K)))) (p @ ''h'', r1, g))"
    by (rule seq_chr_E)
  from a1 obtain r2 where 2: "r1 = CHR ''t'' # r2" and
    a2: "(p', r', g') \<in> set (rmatch fl (Seq (chr CHR ''t'') (Seq (chr CHR ''p'')
           (Seq (Alt (chr CHR ''s'') Eps) ?K))) ((p @ ''h'') @ ''t'', r2, g))"
    by (rule seq_chr_E)
  from a2 obtain r3 where 3: "r2 = CHR ''t'' # r3" and
    a3: "(p', r', g') \<in> set (rmatch fl (Seq (chr CHR ''p'')
           (Seq (Alt (chr CHR ''s'') Eps) ?K)) (((p @ ''h'') @ ''t'') @ ''t'', r3, g))"
    by (rule seq_chr_E)
  from a3 obtain r4 where 4: "r3 = CHR ''p'' # r4" and
    a4: "(p', r', g') \<in> set (rmatch fl
           (Seq (Alt (chr CHR ''s'') Eps) ?K) ((((p @ ''h'') @ ''t'') @ ''t'') @ ''p'', r4, g))"
    by (rule seq_chr_E)
  from a4 obtain p5 r5 g5 where
    a5: "(p5, r5, g5) \<in> set (rmatch fl (Alt (chr CHR ''s'') Eps) ((((p @ ''h'') @ ''t'') @ ''t'') @ ''p'', r4, g))" and
    a6: "(p', r', g') \<in> set (rmatch fl ?K (p5, r5, g5))"
    by (rule seq_E)
  from a6 obtain r6 where 6: "r5 = CHR '':'' # r6" and
    a7: "(p', r', g') \<in> set (rmatch fl (Seq (chr CHR ''/'') (chr CHR ''/'')) (p5 @ '':'', r6, g5))"
    by (rule seq_chr_E)
  from a7 obtain r7 where 7: "r6 = CHR ''/'' # r7" and
    a8: "(p', r', g') \<in> set (rmatch fl (chr CHR ''/'') ((p5 @ '':'') @ ''/'', r7, g5))"
    by (rule seq_chr_E)
  from a8 have 8: "r7 = CHR ''/'' # r'" by (rule chr_E)
  from a5 [unfolded alt_mem] show ?thesis
  proof
    assume "(p5, r5, g5) \<in> set (rmatch fl (chr CHR ''s'') ((((p @ ''h'') @ ''t'') @ ''t'') @ ''p'', r4, g))"
    then have "r4 = CHR ''s'' # r5" by (rule chr_E)
    with 1 2 3 4 6 7 8 show ?thesis by simp
  next
    assume "(p5, r5, g5) \<in> set (rmatch fl Eps ((((p @ ''h'') @ ''t'') @ ''t'') @ ''p'', r4, g))"
    then have "r4 = r5" by simp
    with 1 2 3 4 6 7 8 show ?thesis by simp
  qed
qed

lemma stop_alt3_D:
  assumes "x \<in> set (rmatch fl (cat [chr CHR '' '', chr CHR '' '', Star Greedy (chr CHR '' ''), chr CHR ''\<newline>'']) (p, r, g))"
  shows "r \<noteq> [] \<and> hd r \<in> set stop_chars"
proof -
  obtain p' r' g' where x: "x = (p', r', g')" by (cases x)
  from assms [unfolded x cat.simps] obtain r1 where "r = CHR '' '' # r1"
    by (rule seq_chr_E)
  then show ?thesis by (simp add: stop_chars_def)
qed

lemma take_eq_prefix:
  assumes "take n r = w" "length w = n"
  shows "r = w @ drop n r"
  using assms append_take_drop_id [of n r] by simp

lemma text_stop_iff:
  "rmatch fl TEXT_STOP (p, r, g) \<noteq> [] \<longleftrightarrow> text_stop fl r"
proof
  assume "rmatch fl TEXT_STOP (p, r, g) \<noteq> []"
  then obtain x where "x \<in> set (rmatch fl TEXT_STOP (p, r, g))"
    by (cases "rmatch fl TEXT_STOP (p, r, g)") auto
  then consider
    (1) "x \<in> set (rmatch fl (Atom (Cls [One CHR 0x5C, One CHR ''<'', One CHR ''!'', One CHR ''['', One CHR '':'',
                     One CHR ''_'', One CHR ''*'', One CHR 0x60, One CHR ''~'', One CHR '' ''])) (p, r, g))" |
    (2) "x \<in> set (rmatch fl (cat [chr CHR ''h'', chr CHR ''t'', chr CHR ''t'', chr CHR ''p'', Opt (chr CHR ''s''),
               chr CHR '':'', chr CHR ''/'', chr CHR ''/'']) (p, r, g))" |
    (3) "x \<in> set (rmatch fl (cat [chr CHR '' '', chr CHR '' '', Star Greedy (chr CHR '' ''), chr CHR ''\<newline>'']) (p, r, g))" |
    (4) "x \<in> set (rmatch fl Eol (p, r, g))"
    unfolding TEXT_STOP_def alt_mem by blast
  then show "text_stop fl r"
  proof cases
    case 1
    then have "rmatch fl (Atom (Cls [One CHR 0x5C, One CHR ''<'', One CHR ''!'', One CHR ''['', One CHR '':'',
                     One CHR ''_'', One CHR ''*'', One CHR 0x60, One CHR ''~'', One CHR '' ''])) (p, r, g) \<noteq> []"
      by (metis empty_iff empty_set)
    then have "r \<noteq> [] \<and> hd r \<in> set stop_chars" using stop_alt1 [of fl p r g] by blast
    then show ?thesis by (cases r) simp_all
  next
    case 2
    from stop_alt2_D [OF 2] show ?thesis by (cases r) auto
  next
    case 3
    from stop_alt3_D [OF 3] show ?thesis by (cases r) simp_all
  next
    case 4
    obtain p' r' g' where "x = (p', r', g')" by (cases x)
    with 4 have "at_eol fl r" by (auto elim: eol_E)
    then show ?thesis by (cases r) simp_all
  qed
next
  assume ts: "text_stop fl r"
  show "rmatch fl TEXT_STOP (p, r, g) \<noteq> []"
  proof (cases r)
    case Nil
    then show ?thesis by (simp add: TEXT_STOP_def at_eol_def)
  next
    case (Cons c cs)
    with ts consider (1) "c \<in> set stop_chars" | (2) "take 7 r = ''http://''" |
      (3) "take 8 r = ''https://''" | (4) "at_eol fl r"
      by auto
    then show ?thesis
    proof cases
      case 1
      with Cons have "rmatch fl (Atom (Cls [One CHR 0x5C, One CHR ''<'', One CHR ''!'', One CHR ''['', One CHR '':'',
                     One CHR ''_'', One CHR ''*'', One CHR 0x60, One CHR ''~'', One CHR '' ''])) (p, r, g) \<noteq> []"
        by (simp only: stop_alt1) simp
      then show ?thesis by (simp add: TEXT_STOP_def)
    next
      case 2
      then have "r = ''http://'' @ drop 7 r" by (rule take_eq_prefix) simp
      then have "rmatch fl (cat [chr CHR ''h'', chr CHR ''t'', chr CHR ''t'', chr CHR ''p'', Opt (chr CHR ''s''),
               chr CHR '':'', chr CHR ''/'', chr CHR ''/'']) (p, r, g) \<noteq> []"
        using stop_alt2_I1 [of fl p "drop 7 r" g] by simp
      then show ?thesis by (simp add: TEXT_STOP_def)
    next
      case 3
      then have "r = ''https://'' @ drop 8 r" by (rule take_eq_prefix) simp
      then have "rmatch fl (cat [chr CHR ''h'', chr CHR ''t'', chr CHR ''t'', chr CHR ''p'', Opt (chr CHR ''s''),
               chr CHR '':'', chr CHR ''/'', chr CHR ''/'']) (p, r, g) \<noteq> []"
        using stop_alt2_I2 [of fl p "drop 8 r" g] by simp
      then show ?thesis by (simp add: TEXT_STOP_def)
    next
      case 4
      then show ?thesis by (simp add: TEXT_STOP_def)
    qed
  qed
qed

lemma ahead_stop:
  "rmatch fl (Ahead TEXT_STOP) (p, r, g) = (if text_stop fl r then [(p, r, g)] else [])"
proof (cases "text_stop fl r")
  case True
  then have "rmatch fl TEXT_STOP (p, r, g) \<noteq> []" by (simp only: text_stop_iff)
  with True show ?thesis by simp
next
  case False
  then have "rmatch fl TEXT_STOP (p, r, g) = []" using text_stop_iff [of fl p r g] by blast
  with False show ?thesis by simp
qed

lemma anychar_ok [simp]: "atom_ok fl (Cls [SpaceC, NonSpaceC]) c"
  by simp

lemma scan_plain_first:
  "\<exists>ys. concat (map (rmatch fl (Ahead TEXT_STOP)) (rmatch fl (Star Lazy anychar) (p, cs, g))) =
          (p @ scan_plain fl cs, drop (length (scan_plain fl cs)) cs, g) # ys"
proof (induction cs arbitrary: p)
  case Nil
  show ?case by (simp add: ahead_stop del: rmatch.simps(7))
next
  case (Cons c cs)
  show ?case
  proof (cases "text_stop fl (c # cs)")
    case True
    then show ?thesis by (simp add: ahead_stop del: rmatch.simps(7) text_stop.simps)
  next
    case False
    with Cons [of "p @ [c]"] show ?thesis
      by (simp add: ahead_stop del: rmatch.simps(7) text_stop.simps)
  qed
qed

lemma text_first:
  assumes "at_bol fl p"
  shows "\<exists>ys. rmatch fl TEXT (p, c # cs, g) =
           (p @ c # scan_plain fl cs, drop (length (scan_plain fl cs)) cs, g) # ys"
proof -
  have "rmatch fl TEXT (p, c # cs, g) =
          concat (map (rmatch fl (Ahead TEXT_STOP)) (rmatch fl (Star Lazy anychar) (p @ [c], cs, g)))"
    using assms by (simp add: TEXT_def Plus_def del: rmatch.simps(7))
  with scan_plain_first [of fl "p @ [c]" cs g] show ?thesis by simp
qed

text \<open>
  Claim C3, as the code has it. For every non-empty text span and any flags, the match of
  \<open>TEXT\<close> is the first character, whatever it is, followed by the text up to the first
  later place where the rest is empty, or starts with one of the backslash, \<open><\<close>, \<open>!\<close>,
  \<open>[\<close>, \<open>:\<close>, \<open>_\<close>, \<open>*\<close>, the backtick, \<open>~\<close> or a single space, or with \<open>http://\<close> or
  \<open>https://\<close>, or is at a line end. So a single space ends plain text (the run of two or
  more spaces before a line break is a special case of it), and a stop character in first
  place does not.
\<close>

theorem text_match_shortest:
  "re_match fl TEXT (c # cs) 0 = Some [0 \<mapsto> c # scan_plain fl cs]"
proof -
  have "at_bol fl []" by (simp add: at_bol_def)
  from text_first [OF this, of c cs Map.empty] obtain ys where
    "rmatch fl TEXT ([], c # cs, Map.empty) =
       ([] @ c # scan_plain fl cs, drop (length (scan_plain fl cs)) cs, Map.empty) # ys"
    by blast
  then show ?thesis by (simp add: re_match_def)
qed

theorem text_match_shortest_witness:
  "re_match no_flags TEXT ''see http://x'' 0 = Some [0 \<mapsto> ''see''] \<and>
   re_match no_flags TEXT ''seehttps://x y'' 0 = Some [0 \<mapsto> ''see''] \<and>
   re_match no_flags TEXT ''::'' 0 = Some [0 \<mapsto> '':'']"
proof -
  have 1: "scan_plain no_flags ''ee http://x'' = ''ee''"
    by (simp add: stop_chars_def at_eol_def no_flags_def)
  have 2: "scan_plain no_flags ''eehttps://x y'' = ''ee''"
    by (simp add: stop_chars_def at_eol_def no_flags_def)
  have 3: "scan_plain no_flags '':'' = []"
    by (simp add: stop_chars_def at_eol_def no_flags_def)
  from text_match_shortest [of no_flags "CHR ''s''" "''ee http://x''"]
       text_match_shortest [of no_flags "CHR ''s''" "''eehttps://x y''"]
       text_match_shortest [of no_flags "CHR '':''" "'':''"]
  show ?thesis unfolding 1 2 3 by simp
qed

text \<open>
  The claim as the specification states it fails: in \<open>a b\<close> none of the characters and
  sequences it lists occurs, so nothing should end the plain text, and the match ends
  before the space.
\<close>

theorem text_stops_at_space_counterexample:
  "re_match no_flags TEXT ''a b'' 0 = Some [0 \<mapsto> ''a''] \<and> claimed_plain_text ''a b'' = ''a b''"
  by (simp add: re_match_def TEXT_def TEXT_STOP_def Plus_def Opt_def no_flags_def at_bol_def at_eol_def
      claimed_stop_def claimed_stop_chars_def)

lemma scan_plain_prefix: "cs = scan_plain fl cs @ drop (length (scan_plain fl cs)) cs"
  by (induction cs) (simp_all del: text_stop.simps)

text \<open>
  Claim C6. At every cursor position inside every input, and under any flags, \<open>TEXT\<close>
  matches the remaining text, and its match is a prefix of the remaining text of at least
  one character: the plain-text fallback never fails and never consumes nothing.
\<close>

theorem text_forward_progress:
  assumes "pos < length s"
  shows "\<exists>m t r. re_match fl TEXT (drop pos s) 0 = Some m \<and> m 0 = Some t \<and> 1 \<le> length t \<and>
           drop pos s = t @ r"
proof -
  from assms obtain c cs where d: "drop pos s = c # cs"
    by (cases "drop pos s") auto
  have "re_match fl TEXT (c # cs) 0 = Some [0 \<mapsto> c # scan_plain fl cs]"
  proof -
    have "at_bol fl []" by (simp add: at_bol_def)
    from text_first [OF this, of c cs Map.empty] obtain ys where
      "rmatch fl TEXT ([], c # cs, Map.empty) =
         ([] @ c # scan_plain fl cs, drop (length (scan_plain fl cs)) cs, Map.empty) # ys"
      by blast
    then show ?thesis by (simp add: re_match_def)
  qed
  moreover have "c # cs = (c # scan_plain fl cs) @ drop (length (scan_plain fl cs)) cs"
    using scan_plain_prefix [of cs fl] by simp
  ultimately show ?thesis unfolding d
    by (intro exI [of _ "[0 \<mapsto> c # scan_plain fl cs]"] exI [of _ "c # scan_plain fl cs"]
        exI [of _ "drop (length (scan_plain fl cs)) cs"]) simp
qed

theorem text_forward_progress_witness:
  "(2::nat) < length ''a<b'' \<and>
   (\<exists>m t r. re_match no_flags TEXT (drop 2 ''a<b'') 0 = Some m \<and> m 0 = Some t \<and> 1 \<le> length t \<and>
      drop 2 ''a<b'' = t @ r)"
proof -
  have h: "(2::nat) < length ''a<b''" by simp
  from text_forward_progress [OF h, of no_flags] h show ?thesis by blast
qed

section \<open>Properties of the directive rules\<close>

text \<open>Every match of \<open>DIRECTIVE\<close> ends at a line break that a non-whitespace character follows.\<close>

lemma directive_results:
  assumes "(p', r', g') \<in> set (rmatch fl DIRECTIVE (p, rest, g))"
  shows "\<exists>w c. rest = w @ CHR ''\<newline>'' # c # tl r' \<and> \<not> isspace c"
proof -
  let ?X = "Seq (Star Greedy (chr CHR '' '')) (Seq (chr CHR ''.'') (Seq (chr CHR ''.'') (Star Lazy (Atom Dot))))"
  from assms [unfolded DIRECTIVE_def cat.simps] obtain p0 q0 g0 where
    0: "(p0, q0, g0) \<in> set (rmatch fl Bol (p, rest, g))" and
    1: "(p', r', g') \<in> set (rmatch fl (Seq (Grp 1 ?X) (Seq (chr CHR ''\<newline>'') (Ahead (Atom NonSpace))))
          (p0, q0, g0))"
    by (rule seq_E)
  from 0 have "p0 = p \<and> q0 = rest \<and> g0 = g" by (rule bol_E) simp
  then have b: "p0 = p" "q0 = rest" "g0 = g" by simp_all
  from 1 obtain p1 q1 g1 where
    2: "(p1, q1, g1) \<in> set (rmatch fl (Grp 1 ?X) (p0, q0, g0))" and
    3: "(p', r', g') \<in> set (rmatch fl (Seq (chr CHR ''\<newline>'') (Ahead (Atom NonSpace))) (p1, q1, g1))"
    by (rule seq_E)
  from rmatch_consumes [OF 2] b obtain w where w: "rest = w @ q1" by blast
  from 3 obtain q2 where 4: "q1 = CHR ''\<newline>'' # q2" and
    5: "(p', r', g') \<in> set (rmatch fl (Ahead (Atom NonSpace)) (p1 @ [CHR ''\<newline>''], q2, g1))"
    by (rule seq_chr_E)
  from 5 have "(p', r', g') = (p1 @ [CHR ''\<newline>''], q2, g1)" by (rule ahead_E)
  then have 6: "r' = q2" by simp
  from 5 have 7: "rmatch fl (Atom NonSpace) (p1 @ [CHR ''\<newline>''], q2, g1) \<noteq> []"
    by (rule ahead_E)
  from 7 obtain c cs where 8: "q2 = c # cs" "\<not> isspace c"
    by (cases q2) (auto split: if_splits)
  from w 4 6 8 show ?thesis by auto
qed

lemma directive_needs_boundary:
  assumes "\<not> col0_line_follows rest"
  shows "rmatch fl DIRECTIVE (p, rest, g) = []"
proof (rule ccontr)
  assume "rmatch fl DIRECTIVE (p, rest, g) \<noteq> []"
  then obtain x where "x \<in> set (rmatch fl DIRECTIVE (p, rest, g))"
    by (cases "rmatch fl DIRECTIVE (p, rest, g)") auto
  moreover obtain p' r' g' where "x = (p', r', g')" by (cases x)
  ultimately have "(p', r', g') \<in> set (rmatch fl DIRECTIVE (p, rest, g))" by simp
  from directive_results [OF this] obtain w c where
    "rest = w @ CHR ''\<newline>'' # c # tl r'" "\<not> isspace c"
    by blast
  with col0_line_followsI [of c w "tl r'"] assms show False by simp
qed

lemma oneline_tail_first:
  "\<exists>ys. concat (map (\<lambda>(p', r', g'). rmatch block_flags Eol (p', r', g'(1 \<mapsto> drop n p')))
            (rmatch block_flags (Star Lazy (Atom Dot)) (q, r, g))) =
          (q @ takeWhile not_nl r, dropWhile not_nl r, g(1 \<mapsto> drop n (q @ takeWhile not_nl r))) # ys"
proof (induction r arbitrary: q)
  case Nil
  show ?case by (simp add: at_eol_def)
next
  case (Cons c r)
  show ?case
  proof (cases "c = CHR ''\<newline>''")
    case True
    then show ?thesis by (simp add: at_eol_def block_flags_def)
  next
    case False
    with Cons [of "q @ [c]"] show ?thesis by (simp add: at_eol_def block_flags_def)
  qed
qed

lemma oneline_unfold:
  assumes "at_bol block_flags p"
  shows "rmatch block_flags ONELINE_DIRECTIVE (p, rest, g) =
           concat (map (\<lambda>x. concat (map (\<lambda>(p', r', g'). rmatch block_flags Eol (p', r', g'(1 \<mapsto> drop (length p) p')))
                     (rmatch block_flags (Seq (chr CHR ''.'') (Seq (chr CHR ''.'') (Star Lazy (Atom Dot)))) x)))
             (rmatch block_flags (Star Greedy (chr CHR '' '')) (p, rest, g)))"
  using assms
  by (simp add: ONELINE_DIRECTIVE_def bind_map bind_assoc comp_def split_def del: rmatch.simps(1))

lemma oneline_first:
  assumes "at_bol block_flags p"
  shows "\<exists>ys. rmatch block_flags ONELINE_DIRECTIVE (p, replicate k CHR '' '' @ ''..'' @ r, g) =
           (p @ replicate k CHR '' '' @ ''..'' @ takeWhile not_nl r, dropWhile not_nl r,
            g(1 \<mapsto> replicate k CHR '' '' @ ''..'' @ takeWhile not_nl r)) # ys"
proof -
  let ?f = "\<lambda>x. concat (map (\<lambda>(p', r', g'). rmatch block_flags Eol (p', r', g'(1 \<mapsto> drop (length p) p')))
                     (rmatch block_flags (Seq (chr CHR ''.'') (Seq (chr CHR ''.'') (Star Lazy (Atom Dot)))) x))"
  let ?u = "replicate k CHR '' ''"
  from oneline_tail_first [of "length p" "p @ ?u @ ''..''" r g] obtain ys where
    ys: "concat (map (\<lambda>(p', r', g'). rmatch block_flags Eol (p', r', g'(1 \<mapsto> drop (length p) p')))
            (rmatch block_flags (Star Lazy (Atom Dot)) (p @ ?u @ ''..'', r, g))) =
          ((p @ ?u @ ''..'') @ takeWhile not_nl r, dropWhile not_nl r,
             g(1 \<mapsto> drop (length p) ((p @ ?u @ ''..'') @ takeWhile not_nl r))) # ys"
    by blast
  have f: "?f (p @ ?u, ''..'' @ r, g) =
             (p @ ?u @ ''..'' @ takeWhile not_nl r, dropWhile not_nl r,
              g(1 \<mapsto> ?u @ ''..'' @ takeWhile not_nl r)) # ys"
    using ys by simp
  have "\<exists>zs. concat (map ?f (rmatch block_flags (Star Greedy (chr CHR '' '')) (p, ?u @ (''..'' @ r), g))) =
          (p @ ?u @ ''..'' @ takeWhile not_nl r, dropWhile not_nl r,
              g(1 \<mapsto> ?u @ ''..'' @ takeWhile not_nl r)) # zs"
  proof (rule greedy_star_first)
    show "list_all (atom_ok block_flags (Lit CHR '' '')) ?u" by (simp add: list_all_iff)
    show "''..'' @ r = [] \<or> \<not> atom_ok block_flags (Lit CHR '' '') (hd (''..'' @ r))" by simp
    show "?f (p @ ?u, ''..'' @ r, g) =
             (p @ ?u @ ''..'' @ takeWhile not_nl r, dropWhile not_nl r,
              g(1 \<mapsto> ?u @ ''..'' @ takeWhile not_nl r)) # ys"
      by (rule f)
  qed
  then show ?thesis unfolding oneline_unfold [OF assms] by simp
qed

lemma oneline_results:
  assumes "(p', r', g') \<in> set (rmatch fl ONELINE_DIRECTIVE (p, rest, g))"
  shows "at_bol fl p \<and> (\<exists>k r. rest = replicate k CHR '' '' @ ''..'' @ r)"
proof -
  let ?X = "Seq (Star Greedy (chr CHR '' '')) (Seq (chr CHR ''.'') (Seq (chr CHR ''.'') (Star Lazy (Atom Dot))))"
  from assms [unfolded ONELINE_DIRECTIVE_def cat.simps] obtain p0 q0 g0 where
    0: "(p0, q0, g0) \<in> set (rmatch fl Bol (p, rest, g))" and
    1: "(p', r', g') \<in> set (rmatch fl (Seq (Grp 1 ?X) Eol) (p0, q0, g0))"
    by (rule seq_E)
  from 0 have "p0 = p \<and> q0 = rest \<and> g0 = g \<and> at_bol fl p" by (rule bol_E) simp
  then have b: "p0 = p" "q0 = rest" "g0 = g" "at_bol fl p" by simp_all
  from 1 obtain p1 q1 g1 where
    2: "(p1, q1, g1) \<in> set (rmatch fl (Grp 1 ?X) (p0, q0, g0))"
    by (rule seq_E)
  from 2 obtain g2 where 3: "(p1, q1, g2) \<in> set (rmatch fl ?X (p0, q0, g0))"
    by (rule grp_E)
  from 3 obtain w q3 where 4: "q0 = w @ q3" "list_all (atom_ok fl (Lit CHR '' '')) w" and
    5: "(p1, q1, g2) \<in> set (rmatch fl (Seq (chr CHR ''.'') (Seq (chr CHR ''.'') (Star Lazy (Atom Dot))))
          (p0 @ w, q3, g0))"
    by (rule seq_star_E)
  from 5 obtain q4 where 6: "q3 = CHR ''.'' # q4" and
    7: "(p1, q1, g2) \<in> set (rmatch fl (Seq (chr CHR ''.'') (Star Lazy (Atom Dot))) ((p0 @ w) @ ''.'', q4, g0))"
    by (rule seq_chr_E)
  from 7 obtain q5 where 8: "q4 = CHR ''.'' # q5"
    by (rule seq_chr_E)
  from 4 all_spaces [OF 4(2)] 6 8 b have "rest = replicate (length w) CHR '' '' @ ''..'' @ q5"
    by simp
  with b show ?thesis by blast
qed

lemma first_line_directive:
  "first_line (replicate k CHR '' '' @ ''..'' @ r) = replicate k CHR '' '' @ ''..'' @ takeWhile not_nl r"
proof -
  have "takeWhile not_nl (replicate k CHR '' '' @ (''..'' @ r)) =
          replicate k CHR '' '' @ takeWhile not_nl (''..'' @ r)"
    by (rule takeWhile_append2) simp
  then show ?thesis by (simp add: first_line_def)
qed

text \<open>
  Claim C2, as the code has it. Let the line at the cursor be optional spaces followed by
  \<open>..\<close>, and let no later line start in column 0 with a non-whitespace character, so that
  the directive block runs to the end of the input. Then \<open>DIRECTIVE\<close> does not match: the end
  of input does not satisfy its lookahead. The matching still terminates and recognizes a
  directive, through \<open>ONELINE_DIRECTIVE\<close>, whose match and token text is the first line
  alone; the continuation lines are not part of it.
\<close>

theorem directive_block_at_end_of_input:
  assumes "at_bol block_flags (take pos s)"
    and "drop pos s = replicate k CHR '' '' @ ''..'' @ r"
    and "\<not> col0_line_follows (drop pos s)"
  shows "re_match block_flags DIRECTIVE s pos = None \<and>
         (\<exists>m. re_match block_flags ONELINE_DIRECTIVE s pos = Some m \<and>
              m 0 = Some (first_line (drop pos s)) \<and>
              parse_oneline_directive m state =
                [(''type'', PyStr ''directive''), (''text'', PyStr (first_line (drop pos s)))])"
proof -
  have 1: "re_match block_flags DIRECTIVE s pos = None"
    using directive_needs_boundary [OF assms(3), of block_flags "take pos s" Map.empty]
    by (simp add: re_match_def)
  let ?line = "replicate k CHR '' '' @ ''..'' @ takeWhile not_nl r"
  from oneline_first [OF assms(1), of k r Map.empty] obtain ys where
    "rmatch block_flags ONELINE_DIRECTIVE (take pos s, drop pos s, Map.empty) =
       (take pos s @ ?line, dropWhile not_nl r, [1 \<mapsto> ?line]) # ys"
    unfolding assms(2) by blast
  then have 2: "re_match block_flags ONELINE_DIRECTIVE s pos = Some [1 \<mapsto> ?line, 0 \<mapsto> ?line]"
    by (rule re_match_SomeI)
  have 3: "first_line (drop pos s) = ?line"
    unfolding assms(2) by (rule first_line_directive)
  show ?thesis
    unfolding 3 using 1 2 by (simp add: parse_oneline_directive_def group_def)
qed

theorem directive_block_at_end_of_input_witness:
  "re_match block_flags DIRECTIVE ''x\<newline>  .. a::\<newline>\<newline>    b'' 2 = None \<and>
   (\<exists>m. re_match block_flags ONELINE_DIRECTIVE ''x\<newline>  .. a::\<newline>\<newline>    b'' 2 = Some m \<and>
        m 0 = Some ''  .. a::'' \<and>
        parse_oneline_directive m () = [(''type'', PyStr ''directive''), (''text'', PyStr ''  .. a::'')])"
proof -
  have a: "at_bol block_flags (take 2 ''x\<newline>  .. a::\<newline>\<newline>    b'')"
    by (simp add: at_bol_def block_flags_def)
  have b: "drop 2 ''x\<newline>  .. a::\<newline>\<newline>    b'' = replicate 2 CHR '' '' @ ''..'' @ '' a::\<newline>\<newline>    b''"
    by (simp add: numeral_2_eq_2)
  have c: "\<not> col0_line_follows (drop 2 ''x\<newline>  .. a::\<newline>\<newline>    b'')"
    by (simp add: isspace_def)
  have d: "first_line (drop 2 ''x\<newline>  .. a::\<newline>\<newline>    b'') = ''  .. a::''"
    by (simp add: first_line_def)
  from directive_block_at_end_of_input [OF a b c, of "()"] show ?thesis
    unfolding d by simp
qed

text \<open>
  The claim as the specification states it fails: for a directive of two lines that ends
  the input, \<open>DIRECTIVE\<close> does not match, and what \<open>ONELINE_DIRECTIVE\<close> recognizes is the
  first line, not the span up to the end of the input.
\<close>

theorem directive_block_truncated_counterexample:
  "re_match block_flags DIRECTIVE ''.. note::\<newline>   body\<newline>'' 0 = None \<and>
   re_match block_flags ONELINE_DIRECTIVE ''.. note::\<newline>   body\<newline>'' 0 =
     Some [1 \<mapsto> ''.. note::'', 0 \<mapsto> ''.. note::'']"
  by (simp add: re_match_def DIRECTIVE_def ONELINE_DIRECTIVE_def block_flags_def at_bol_def at_eol_def
      isspace_def)

text \<open>
  Claim C8. In the block rule order \<open>oneline_directive\<close> stands after \<open>directive\<close>, whatever
  the inherited rules are (they hold no rule of that name), and for every match of
  \<open>ONELINE_DIRECTIVE\<close> the handler returns the token of type \<open>directive\<close> whose text is the
  matched line, the line at the cursor up to its line break: the token that
  \<open>parse_directive\<close> builds from the same match. At a cursor where no inherited rule
  matches, one step of the engine yields the token of \<open>directive\<close> wherever \<open>DIRECTIVE\<close>
  matches, whether or not \<open>ONELINE_DIRECTIVE\<close> matches there too, and the token of
  \<open>oneline_directive\<close>, with the line at the cursor as its text, only where \<open>DIRECTIVE\<close>
  fails and \<open>ONELINE_DIRECTIVE\<close> matches. Where \<open>DIRECTIVE\<close> matches, a step never yields
  the token of \<open>oneline_directive\<close>, whatever the inherited rules do. The witness is a
  directive of two lines followed by a paragraph, which both patterns match with different
  texts, and a directive that ends the input, which \<open>ONELINE_DIRECTIVE\<close> alone matches.
\<close>

theorem oneline_directive_after_directive:
  assumes "''oneline_directive'' \<notin> set base"
    and "re_match block_flags ONELINE_DIRECTIVE s pos = Some m"
  shows "tried_before ''directive'' ''oneline_directive'' (RestBlockParser_DEFAULT_RULES base) \<and>
         m 0 = Some (first_line (drop pos s)) \<and>
         parse_oneline_directive m state =
           [(''type'', PyStr ''directive''), (''text'', PyStr (first_line (drop pos s)))] \<and>
         parse_oneline_directive m state = parse_directive m state \<and>
         (\<forall>d. engine_step base (RestBlockParser_rules base_table) s pos = None \<longrightarrow>
              re_match block_flags DIRECTIVE (drop pos s) 0 = Some d \<longrightarrow>
              engine_step (RestBlockParser_DEFAULT_RULES base) (RestBlockParser_rules base_table) s pos =
                Some (''directive'', parse_directive d (), match_end pos d)) \<and>
         (\<forall>m'. engine_step base (RestBlockParser_rules base_table) s pos = None \<longrightarrow>
              re_match block_flags DIRECTIVE (drop pos s) 0 = None \<longrightarrow>
              re_match block_flags ONELINE_DIRECTIVE (drop pos s) 0 = Some m' \<longrightarrow>
              engine_step (RestBlockParser_DEFAULT_RULES base) (RestBlockParser_rules base_table) s pos =
                Some (''oneline_directive'',
                      [(''type'', PyStr ''directive''), (''text'', PyStr (first_line (drop pos s)))],
                      pos + length (first_line (drop pos s)))) \<and>
         (\<forall>d out. re_match block_flags DIRECTIVE (drop pos s) 0 = Some d \<longrightarrow>
              engine_step (RestBlockParser_DEFAULT_RULES base) (RestBlockParser_rules base_table) s pos \<noteq>
                Some (''oneline_directive'', out))"
proof -
  have "takeWhile (\<lambda>x. x \<noteq> ''oneline_directive'')
            (base @ [''directive'', ''oneline_directive'', ''rest_code_block'']) =
          base @ takeWhile (\<lambda>x. x \<noteq> ''oneline_directive'')
            [''directive'', ''oneline_directive'', ''rest_code_block'']"
    by (rule takeWhile_append2) (use assms(1) in auto)
  then have "takeWhile (\<lambda>x. x \<noteq> ''oneline_directive'') (RestBlockParser_DEFAULT_RULES base) =
          base @ [''directive'']"
    by (simp add: RestBlockParser_DEFAULT_RULES_def)
  moreover have "''oneline_directive'' \<in> set (RestBlockParser_DEFAULT_RULES base)"
    by (simp add: RestBlockParser_DEFAULT_RULES_def)
  ultimately have 1: "tried_before ''directive'' ''oneline_directive'' (RestBlockParser_DEFAULT_RULES base)"
    by (simp add: tried_before_def)
  have line: "\<exists>k r. drop q t = replicate k CHR '' '' @ ''..'' @ r \<and>
                 first_line (drop q t) = replicate k CHR '' '' @ ''..'' @ takeWhile not_nl r \<and>
                 n = [1 \<mapsto> replicate k CHR '' '' @ ''..'' @ takeWhile not_nl r,
                      0 \<mapsto> replicate k CHR '' '' @ ''..'' @ takeWhile not_nl r]"
    if "re_match block_flags ONELINE_DIRECTIVE t q = Some n" for t q n
  proof -
    from re_match_SomeD [OF that] obtain w rest' g' ys where
      2: "rmatch block_flags ONELINE_DIRECTIVE (take q t, drop q t, Map.empty) =
            (take q t @ w, rest', g') # ys" and
      3: "n = g'(0 \<mapsto> w)"
      by blast
    from 2 have "(take q t @ w, rest', g') \<in>
        set (rmatch block_flags ONELINE_DIRECTIVE (take q t, drop q t, Map.empty))"
      by simp
    from oneline_results [OF this] obtain k r where
      4: "at_bol block_flags (take q t)" and 5: "drop q t = replicate k CHR '' '' @ ''..'' @ r"
      by blast
    let ?line = "replicate k CHR '' '' @ ''..'' @ takeWhile not_nl r"
    from oneline_first [OF 4, of k r Map.empty] obtain zs where
      f: "rmatch block_flags ONELINE_DIRECTIVE (take q t, drop q t, Map.empty) =
         (take q t @ ?line, dropWhile not_nl r, [1 \<mapsto> ?line]) # zs"
      unfolding 5 by blast
    have "(take q t @ w, rest', g') # ys =
            (take q t @ ?line, dropWhile not_nl r, [1 \<mapsto> ?line]) # zs"
      by (rule trans [OF sym [OF 2] f])
    then have "w = ?line \<and> g' = [1 \<mapsto> ?line]" by simp
    with 3 have 6: "n = [1 \<mapsto> ?line, 0 \<mapsto> ?line]" by simp
    have 7: "first_line (drop q t) = ?line"
      unfolding 5 by (rule first_line_directive)
    from 5 6 7 show ?thesis by blast
  qed
  from line [OF assms(2)] have 8:
    "m 0 = Some (first_line (drop pos s)) \<and>
     parse_oneline_directive m state =
       [(''type'', PyStr ''directive''), (''text'', PyStr (first_line (drop pos s)))] \<and>
     parse_oneline_directive m state = parse_directive m state"
    by (auto simp: parse_oneline_directive_def parse_directive_def group_def)
  let ?T = "RestBlockParser_rules base_table"
  have tab: "?T ''directive'' = rule_of block_flags DIRECTIVE parse_directive"
    "?T ''oneline_directive'' = rule_of block_flags ONELINE_DIRECTIVE parse_oneline_directive"
    by (simp_all add: RestBlockParser_rules_def)
  have 9: "engine_step (RestBlockParser_DEFAULT_RULES base) ?T s pos =
             Some (''directive'', parse_directive d (), match_end pos d)"
    if "engine_step base ?T s pos = None" "re_match block_flags DIRECTIVE (drop pos s) 0 = Some d"
    for d
    unfolding RestBlockParser_DEFAULT_RULES_def engine_step_append that(1)
    by (simp add: tab rule_of_Some [OF that(2)])
  have 10: "engine_step (RestBlockParser_DEFAULT_RULES base) ?T s pos =
             Some (''oneline_directive'',
                   [(''type'', PyStr ''directive''), (''text'', PyStr (first_line (drop pos s)))],
                   pos + length (first_line (drop pos s)))"
    if "engine_step base ?T s pos = None" "re_match block_flags DIRECTIVE (drop pos s) 0 = None"
      "re_match block_flags ONELINE_DIRECTIVE (drop pos s) 0 = Some m'"
    for m'
  proof -
    from line [OF that(3)] have
      "parse_oneline_directive m' () =
         [(''type'', PyStr ''directive''), (''text'', PyStr (first_line (drop pos s)))]"
      "match_end pos m' = pos + length (first_line (drop pos s))"
      by (auto simp: parse_oneline_directive_def group_def match_end_def)
    then show ?thesis
      unfolding RestBlockParser_DEFAULT_RULES_def engine_step_append that(1)
      by (simp add: tab rule_of_Some [OF that(3)] rule_of_None [OF that(2)])
  qed
  have 11: "engine_step (RestBlockParser_DEFAULT_RULES base) ?T s pos \<noteq> Some (''oneline_directive'', out)"
    if d: "re_match block_flags DIRECTIVE (drop pos s) 0 = Some d" for d out
  proof (cases "engine_step base ?T s pos")
    case None
    from 9 [OF None d] show ?thesis by simp
  next
    case (Some r)
    obtain n v where r: "r = (n, v)" by (cases r)
    from engine_step_SomeD [of base ?T s pos n v] Some r have "n \<in> set base" by simp
    with assms(1) have "n \<noteq> ''oneline_directive''" by auto
    moreover have "engine_step (RestBlockParser_DEFAULT_RULES base) ?T s pos = Some (n, v)"
      unfolding RestBlockParser_DEFAULT_RULES_def engine_step_append Some r by simp
    ultimately show ?thesis by simp
  qed
  from 1 8 9 10 11 show ?thesis by blast
qed

theorem oneline_directive_after_directive_witness:
  "''oneline_directive'' \<notin> set example_block_rules \<and>
   tried_before ''directive'' ''oneline_directive'' (RestBlockParser_DEFAULT_RULES example_block_rules) \<and>
   re_match block_flags ONELINE_DIRECTIVE ''.. a\<newline> b\<newline>c\<newline>'' 0 = Some [1 \<mapsto> ''.. a'', 0 \<mapsto> ''.. a''] \<and>
   parse_oneline_directive [1 \<mapsto> ''.. a'', 0 \<mapsto> ''.. a''] () =
     [(''type'', PyStr ''directive''), (''text'', PyStr ''.. a'')] \<and>
   re_match block_flags DIRECTIVE ''.. a\<newline> b\<newline>c\<newline>'' 0 =
     Some [1 \<mapsto> ''.. a\<newline> b'', 0 \<mapsto> ''.. a\<newline> b\<newline>''] \<and>
   engine_step example_block_rules (RestBlockParser_rules example_block_table) ''.. a\<newline> b\<newline>c\<newline>'' 0 = None \<and>
   engine_step (RestBlockParser_DEFAULT_RULES example_block_rules)
     (RestBlockParser_rules example_block_table) ''.. a\<newline> b\<newline>c\<newline>'' 0 =
     Some (''directive'', [(''type'', PyStr ''directive''), (''text'', PyStr ''.. a\<newline> b'')], 8) \<and>
   re_match block_flags DIRECTIVE ''.. note::\<newline>   body\<newline>'' 0 = None \<and>
   engine_step (RestBlockParser_DEFAULT_RULES example_block_rules)
     (RestBlockParser_rules example_block_table) ''.. note::\<newline>   body\<newline>'' 0 =
     Some (''oneline_directive'', [(''type'', PyStr ''directive''), (''text'', PyStr ''.. note::'')], 9)"
proof -
  let ?T = "RestBlockParser_rules example_block_table"
  let ?s = "''.. a\<newline> b\<newline>c\<newline>''"
  let ?t = "''.. note::\<newline>   body\<newline>''"
  have a: "''oneline_directive'' \<notin> set example_block_rules"
    by (simp add: example_block_rules_def)
  have b: "re_match block_flags ONELINE_DIRECTIVE ?s 0 = Some [1 \<mapsto> ''.. a'', 0 \<mapsto> ''.. a'']"
    by (simp add: re_match_def ONELINE_DIRECTIVE_def block_flags_def at_bol_def at_eol_def)
  have c: "re_match block_flags DIRECTIVE ?s 0 =
             Some [1 \<mapsto> ''.. a\<newline> b'', 0 \<mapsto> ''.. a\<newline> b\<newline>'']"
    by (simp add: re_match_def DIRECTIVE_def block_flags_def at_bol_def isspace_def)
  have d: "engine_step example_block_rules ?T ?s 0 = None"
    by (simp add: example_block_rules_def RestBlockParser_rules_def example_block_table_def)
  have e: "re_match block_flags ONELINE_DIRECTIVE ?t 0 = Some [1 \<mapsto> ''.. note::'', 0 \<mapsto> ''.. note::'']"
    by (simp add: re_match_def ONELINE_DIRECTIVE_def block_flags_def at_bol_def at_eol_def)
  have f: "re_match block_flags DIRECTIVE ?t 0 = None"
    by (simp add: re_match_def DIRECTIVE_def block_flags_def at_bol_def isspace_def)
  have g: "engine_step example_block_rules ?T ?t 0 = None"
    by (simp add: example_block_rules_def RestBlockParser_rules_def example_block_table_def)
  have h: "first_line (drop 0 ?s) = ''.. a''" "first_line (drop 0 ?t) = ''.. note::''"
    by (simp_all add: first_line_def)
  note S = oneline_directive_after_directive [OF a b, of "()" example_block_table]
  note T = oneline_directive_after_directive [OF a e, of "()" example_block_table]
  have 1: "engine_step (RestBlockParser_DEFAULT_RULES example_block_rules) ?T ?s 0 =
             Some (''directive'', [(''type'', PyStr ''directive''), (''text'', PyStr ''.. a\<newline> b'')], 8)"
    using S d c by (simp add: parse_directive_def group_def match_end_def)
  have 2: "engine_step (RestBlockParser_DEFAULT_RULES example_block_rules) ?T ?t 0 =
             Some (''oneline_directive'', [(''type'', PyStr ''directive''), (''text'', PyStr ''.. note::'')], 9)"
    using T g f e unfolding h by simp
  from S have 3: "tried_before ''directive'' ''oneline_directive''
                    (RestBlockParser_DEFAULT_RULES example_block_rules)"
    by blast
  from S have 4: "parse_oneline_directive [1 \<mapsto> ''.. a'', 0 \<mapsto> ''.. a''] () =
                    [(''type'', PyStr ''directive''), (''text'', PyStr ''.. a'')]"
    unfolding h by blast
  from a b c d f 1 2 3 4 show ?thesis by blast
qed

section \<open>Properties of the inline HTML pattern\<close>

lemma seq_I:
  assumes "(p1, q1, g1) \<in> set (rmatch fl r1 st)" and "x \<in> set (rmatch fl r2 (p1, q1, g1))"
  shows "x \<in> set (rmatch fl (Seq r1 r2) st)"
  using assms by auto

lemma seq_assoc:
  "rmatch fl (Seq (Seq r1 r2) r3) st = rmatch fl (Seq r1 (Seq r2 r3)) st"
proof -
  have "rmatch fl (Seq r2 r3) = (\<lambda>x. concat (map (rmatch fl r3) (rmatch fl r2 x)))"
    by (rule ext) simp
  then show ?thesis by (simp add: bind_assoc)
qed

lemma seq_chr_I:
  assumes "x \<in> set (rmatch fl k (p @ [d], cs, g))"
  shows "x \<in> set (rmatch fl (Seq (chr d) k) (p, d # cs, g))"
  using assms by simp

lemma seq_atom_I:
  assumes "atom_ok fl a c" and "x \<in> set (rmatch fl k (p @ [c], cs, g))"
  shows "x \<in> set (rmatch fl (Seq (Atom a) k) (p, c # cs, g))"
  using assms by simp

lemma seq_star_I:
  assumes "list_all (atom_ok fl a) w" and "x \<in> set (rmatch fl k (p @ w, q, g))"
  shows "x \<in> set (rmatch fl (Seq (Star gr (Atom a)) k) (p, w @ q, g))"
proof (rule seq_I)
  show "(p @ w, q, g) \<in> set (rmatch fl (Star gr (Atom a)) (p, w @ q, g))"
    unfolding star_atom_set using assms(1) by blast
  show "x \<in> set (rmatch fl k (p @ w, q, g))" by (rule assms(2))
qed

lemma seq_plus_I:
  assumes "atom_ok fl a c" and "list_all (atom_ok fl a) w"
    and "x \<in> set (rmatch fl k (p @ c # w, q, g))"
  shows "x \<in> set (rmatch fl (Seq (Plus gr (Atom a)) k) (p, c # w @ q, g))"
proof -
  have "x \<in> set (rmatch fl (Seq (Atom a) (Seq (Star gr (Atom a)) k)) (p, c # w @ q, g))"
  proof (rule seq_atom_I [OF assms(1)], rule seq_star_I [OF assms(2)])
    show "x \<in> set (rmatch fl k ((p @ [c]) @ w, q, g))" using assms(3) by simp
  qed
  then show ?thesis unfolding Plus_def seq_assoc .
qed

lemma seq_plus_E:
  assumes "x \<in> set (rmatch fl (Seq (Plus gr (Atom a)) k) (p, r, g))"
  obtains c w q where "r = c # w @ q" "atom_ok fl a c" "list_all (atom_ok fl a) w"
    "x \<in> set (rmatch fl k (p @ c # w, q, g))"
proof -
  obtain p' r' g' where x: "x = (p', r', g')" by (cases x)
  from assms have "(p', r', g') \<in> set (rmatch fl (Seq (Atom a) (Seq (Star gr (Atom a)) k)) (p, r, g))"
    unfolding Plus_def seq_assoc x .
  then obtain c cs where 1: "r = c # cs" "atom_ok fl a c" and
    2: "(p', r', g') \<in> set (rmatch fl (Seq (Star gr (Atom a)) k) (p @ [c], cs, g))"
    by (rule seq_atom_E)
  from 2 obtain w q where 3: "cs = w @ q" "list_all (atom_ok fl a) w" and
    4: "(p', r', g') \<in> set (rmatch fl k ((p @ [c]) @ w, q, g))"
    by (rule seq_star_E)
  from 1 3 4 x that [of c w q] show thesis by simp
qed

lemma seq_notbehind_I:
  assumes "p = [] \<or> last p \<noteq> c" and "x \<in> set (rmatch fl k (p, r, g))"
  shows "x \<in> set (rmatch fl (Seq (NotBehind c) k) (p, r, g))"
  using assms by auto

lemma seq_notbehind_E:
  assumes "x \<in> set (rmatch fl (Seq (NotBehind c) k) (p, r, g))"
  obtains "p = [] \<or> last p \<noteq> c" "x \<in> set (rmatch fl k (p, r, g))"
  using assms by (auto split: if_splits)

lemma chr_I: "(p @ [d], r, g) \<in> set (rmatch fl (chr d) (p, d # r, g))"
  by simp

lemma nonemptyI: "x \<in> set xs \<Longrightarrow> xs \<noteq> []"
  by auto

lemma anychar_all: "list_all (atom_ok fl (Cls [SpaceC, NonSpaceC])) w"
  by (simp add: list_all_iff)

text \<open>Processing instructions, doctypes and CDATA sections.\<close>

lemma pi_present:
  assumes "p = [] \<or> last p \<noteq> CHR 0x5C"
  shows "rmatch fl html_pi (p, CHR ''<'' # CHR ''?'' # b # bs @ CHR ''?'' # CHR ''>'' # r, g) \<noteq> []"
proof -
  have "\<exists>x. x \<in> set (rmatch fl html_pi (p, CHR ''<'' # CHR ''?'' # b # bs @ CHR ''?'' # CHR ''>'' # r, g))"
    unfolding html_pi_def cat.simps
    apply (rule exI)
    apply (rule seq_notbehind_I [OF assms])
    apply (rule seq_chr_I)+
    apply (rule seq_plus_I, simp, rule anychar_all)
    apply (rule seq_chr_I)
    apply (rule chr_I)
    done
  then show ?thesis by auto
qed

lemma pi_shape:
  assumes "(p', r', g') \<in> set (rmatch fl html_pi (p, rest, g))"
  shows "g' = g \<and> (\<exists>b bs. p' = p @ ''<?'' @ (b # bs) @ ''?>'' \<and>
           rest = ''<?'' @ (b # bs) @ ''?>'' @ r')"
  using assms unfolding html_pi_def cat.simps
  apply (elim seq_notbehind_E seq_chr_E seq_atom_E seq_plus_E chr_E)
  apply simp
  done

lemma doctype_present:
  assumes "p = [] \<or> last p \<noteq> CHR 0x5C" and "atom_ok fl (Cls [Range CHR ''A'' CHR ''Z'']) u"
  shows "rmatch fl html_doctype (p, CHR ''<'' # CHR ''!'' # u # b # bs @ CHR ''>'' # r, g) \<noteq> []"
proof -
  have "\<exists>x. x \<in> set (rmatch fl html_doctype (p, CHR ''<'' # CHR ''!'' # u # b # bs @ CHR ''>'' # r, g))"
    unfolding html_doctype_def cat.simps
    apply (rule exI)
    apply (rule seq_notbehind_I [OF assms(1)])
    apply (rule seq_chr_I)+
    apply (rule seq_atom_I, rule assms(2))
    apply (rule seq_plus_I, simp, rule anychar_all)
    apply (rule chr_I)
    done
  then show ?thesis by auto
qed

lemma doctype_shape:
  assumes "(p', r', g') \<in> set (rmatch fl html_doctype (p, rest, g))"
  shows "g' = g \<and> (\<exists>u b bs. atom_ok fl (Cls [Range CHR ''A'' CHR ''Z'']) u \<and>
           p' = p @ ''<!'' @ [u] @ (b # bs) @ ''>'' \<and> rest = ''<!'' @ [u] @ (b # bs) @ ''>'' @ r')"
  using assms unfolding html_doctype_def cat.simps
  apply (elim seq_notbehind_E seq_chr_E seq_atom_E seq_plus_E chr_E)
  apply simp
  done

lemma cdata_present:
  assumes "p = [] \<or> last p \<noteq> CHR 0x5C"
  shows "rmatch fl html_cdata
           (p, CHR ''<'' # CHR ''!'' # CHR ''['' # CHR ''C'' # CHR ''D'' # CHR ''A'' # CHR ''T'' # CHR ''A'' #
               b # bs @ CHR '']'' # CHR '']'' # CHR ''>'' # r, g) \<noteq> []"
proof -
  have "\<exists>x. x \<in> set (rmatch fl html_cdata
           (p, CHR ''<'' # CHR ''!'' # CHR ''['' # CHR ''C'' # CHR ''D'' # CHR ''A'' # CHR ''T'' # CHR ''A'' #
               b # bs @ CHR '']'' # CHR '']'' # CHR ''>'' # r, g))"
    unfolding html_cdata_def cat.simps
    apply (rule exI)
    apply (rule seq_notbehind_I [OF assms(1)])
    apply (rule seq_chr_I)+
    apply (rule seq_plus_I, simp, rule anychar_all)
    apply (rule seq_chr_I)+
    apply (rule chr_I)
    done
  then show ?thesis by auto
qed

lemma cdata_shape:
  assumes "(p', r', g') \<in> set (rmatch fl html_cdata (p, rest, g))"
  shows "g' = g \<and> (\<exists>b bs. p' = p @ ''<![CDATA'' @ (b # bs) @ '']]>'' \<and>
           rest = ''<![CDATA'' @ (b # bs) @ '']]>'' @ r')"
  using assms unfolding html_cdata_def cat.simps
  apply (elim seq_notbehind_E seq_chr_E seq_atom_E seq_plus_E chr_E)
  apply simp
  done

lemma same_place_simp [simp]: "same_place (a, b, c) (a', b', c') = (a = a' \<and> b = b')"
  by (simp add: same_place_def)

lemma bind_rel:
  assumes "list_all2 same_place xs ys"
    and "\<And>x y. x \<in> set xs \<Longrightarrow> same_place x y \<Longrightarrow> list_all2 same_place (f x) (f y)"
  shows "list_all2 same_place (concat (map f xs)) (concat (map f ys))"
  using assms
proof (induction xs ys rule: list_all2_induct)
  case Nil
  show ?case by simp
next
  case (Cons x xs y ys)
  have "list_all2 same_place (f x) (f y)" using Cons.prems Cons.hyps(1) by simp
  moreover have "list_all2 same_place (concat (map f xs)) (concat (map f ys))"
    using Cons.IH Cons.prems by simp
  ultimately show ?case by (simp add: list_all2_appendI)
qed

lemma filter_rel:
  assumes "list_all2 same_place xs ys" and "\<And>x y. same_place x y \<Longrightarrow> P x = P y"
  shows "list_all2 same_place (filter P xs) (filter P ys)"
  using assms by (induction xs ys rule: list_all2_induct) auto

lemma rmatch_groups_indep:
  "list_all2 same_place (rmatch fl r (p, q, g)) (rmatch fl r (p, q, g'))"
proof (induction fl r "(p, q, g)" arbitrary: p q g g' rule: rmatch.induct)
  case (1 fl a pre rest g)
  show ?case by (cases rest) simp_all
next
  case (2 fl)
  show ?case by simp
next
  case (3 fl r1 r2 p q g)
  have "list_all2 same_place (concat (map (rmatch fl r2) (rmatch fl r1 (p, q, g))))
          (concat (map (rmatch fl r2) (rmatch fl r1 (p, q, g'))))"
  proof (rule bind_rel)
    show "list_all2 same_place (rmatch fl r1 (p, q, g)) (rmatch fl r1 (p, q, g'))"
      by (rule "3.hyps"(1))
    fix x y :: mstate assume x: "x \<in> set (rmatch fl r1 (p, q, g))" and xy: "same_place x y"
    obtain a b c where xe: "x = (a, b, c)" by (cases x)
    with xy obtain c' where ye: "y = (a, b, c')" by (cases y) simp
    show "list_all2 same_place (rmatch fl r2 x) (rmatch fl r2 y)"
      unfolding xe ye using "3.hyps"(2) x xe by blast
  qed
  then show ?case by simp
next
  case (4 fl r1 r2 p q g)
  show ?case using "4.hyps"(1) [of g'] "4.hyps"(2) [of g'] by (simp add: list_all2_appendI)
next
  case (5 fl gr r p q g)
  let ?P = "\<lambda>(pre', rest', g'). length rest' < length q"
  have f: "list_all2 same_place (filter ?P (rmatch fl r (p, q, g))) (filter ?P (rmatch fl r (p, q, g')))"
    by (rule filter_rel [OF "5.hyps"(1)]) (auto simp: same_place_def split_def)
  have m: "list_all2 same_place
          (concat (map (rmatch fl (Star gr r)) (filter ?P (rmatch fl r (p, q, g)))))
          (concat (map (rmatch fl (Star gr r)) (filter ?P (rmatch fl r (p, q, g')))))"
  proof (rule bind_rel [OF f])
    fix x y :: mstate assume x: "x \<in> set (filter ?P (rmatch fl r (p, q, g)))" and xy: "same_place x y"
    obtain a b c where xe: "x = (a, b, c)" by (cases x)
    with xy obtain c' where ye: "y = (a, b, c')" by (cases y) simp
    show "list_all2 same_place (rmatch fl (Star gr r) x) (rmatch fl (Star gr r) y)"
      unfolding xe ye using "5.hyps"(2) x xe by blast
  qed
  show ?case
  proof (cases gr)
    case Greedy
    from m [unfolded Greedy] show ?thesis
      unfolding Greedy by (subst (1 2) rmatch_Star) (simp add: Let_def list_all2_appendI)
  next
    case Lazy
    from m [unfolded Lazy] show ?thesis
      unfolding Lazy by (subst (1 2) rmatch_Star) (simp add: Let_def)
  qed
next
  case (6 fl n r p q g)
  from "6.hyps" [of g'] show ?case
    by (simp add: list_all2_map1 list_all2_map2 split_def same_place_def)
next
  case (7 fl r p q g)
  from "7.hyps" [of g'] have "length (rmatch fl r (p, q, g)) = length (rmatch fl r (p, q, g'))"
    by (rule list_all2_lengthD)
  then have "(rmatch fl r (p, q, g) = []) = (rmatch fl r (p, q, g') = [])" by auto
  then show ?case by simp
next
  case (8 fl c p q g)
  show ?case by simp
next
  case (9 fl p q g)
  show ?case by simp
next
  case (10 fl p q g)
  show ?case by simp
qed

lemma same_place_strip:
  "list_all2 same_place xs ys \<Longrightarrow>
     map (\<lambda>(p', r', g'). (p', r')) xs = map (\<lambda>(p', r', g'). (p', r')) ys"
  by (induction xs ys rule: list_all2_induct) (auto simp: same_place_def split_def)

lemma strip_mem:
  "(a, b) \<in> set (map (\<lambda>(p', r', g'). (p', r')) xs) \<longleftrightarrow> (\<exists>c. (a, b, c) \<in> set xs)"
  by (induction xs) auto

lemma accepts_iff:
  "accepts fl r pre w rest \<longleftrightarrow> (\<exists>g'. (pre @ w, rest, g') \<in> set (rmatch fl r (pre, w @ rest, g)))"
proof -
  have "map (\<lambda>(p', r', g'). (p', r')) (rmatch fl r (pre, w @ rest, Map.empty)) =
        map (\<lambda>(p', r', g'). (p', r')) (rmatch fl r (pre, w @ rest, g))"
    by (rule same_place_strip [OF rmatch_groups_indep])
  then show ?thesis unfolding accepts_def by (simp only: strip_mem)
qed

lemma grp_I:
  assumes "(p', r', g0) \<in> set (rmatch fl r (p, q, g))"
  shows "(p', r', g0(n \<mapsto> drop (length p) p')) \<in> set (rmatch fl (Grp n r) (p, q, g))"
  using assms by force

lemma span_present:
  assumes op: "(p1, c @ q2, g1) \<in> set (rmatch fl (html_open tagname attrs) st)"
    and ct: "list_all (atom_ok fl Dot) c"
    and cl: "x \<in> set (rmatch fl (html_close tagname) (p1 @ c, q2, g1(1 \<mapsto> c)))"
  shows "x \<in> set (rmatch fl (html_span tagname attrs) st)"
proof -
  have "(p1 @ c, q2, g1) \<in> set (rmatch fl (Star Greedy (Atom Dot)) (p1, c @ q2, g1))"
    unfolding star_atom_set using ct by blast
  from grp_I [OF this, of 1]
  have g: "(p1 @ c, q2, g1(1 \<mapsto> c)) \<in> set (rmatch fl (Grp 1 (Star Greedy (Atom Dot))) (p1, c @ q2, g1))"
    by simp
  have "x \<in> set (rmatch fl (Seq (Grp 1 (Star Greedy (Atom Dot))) (html_close tagname)) (p1, c @ q2, g1))"
    by (rule seq_I [OF g cl])
  from seq_I [OF op this] show ?thesis by (simp add: html_span_def)
qed

lemma grps_html_close [simp]: "grps (html_close tagname) = grps tagname"
  by (simp add: html_close_def)

lemma span_shape:
  assumes "(p', r', g') \<in> set (rmatch fl (html_span tagname attrs) (p, rest, g))"
    and "1 \<notin> grps tagname"
  shows "\<exists>op c cl. rest = op @ c @ cl @ r' \<and> p' = p @ op @ c @ cl \<and> g' 1 = Some c \<and>
           accepts fl (html_open tagname attrs) p op (c @ cl @ r') \<and>
           list_all (atom_ok fl Dot) c \<and>
           accepts fl (html_close tagname) (p @ op @ c) cl r'"
proof -
  from assms(1) have "(p', r', g') \<in> set (rmatch fl
      (Seq (html_open tagname attrs) (Seq (Grp 1 (Star Greedy (Atom Dot))) (html_close tagname)))
      (p, rest, g))"
    by (simp add: html_span_def)
  then obtain p1 q1 g1 where
    1: "(p1, q1, g1) \<in> set (rmatch fl (html_open tagname attrs) (p, rest, g))" and
    2: "(p', r', g') \<in> set (rmatch fl (Seq (Grp 1 (Star Greedy (Atom Dot))) (html_close tagname)) (p1, q1, g1))"
    by (rule seq_E)
  from 2 obtain p2 q2 g2 where
    3: "(p2, q2, g2) \<in> set (rmatch fl (Grp 1 (Star Greedy (Atom Dot))) (p1, q1, g1))" and
    4: "(p', r', g') \<in> set (rmatch fl (html_close tagname) (p2, q2, g2))"
    by (rule seq_E)
  from 3 obtain g0 where
    5: "(p2, q2, g0) \<in> set (rmatch fl (Star Greedy (Atom Dot)) (p1, q1, g1))" and
    6: "g2 = g0(1 \<mapsto> drop (length p1) p2)"
    by (rule grp_E)
  from 5 obtain c where 7: "q1 = c @ q2" "p2 = p1 @ c" "g0 = g1" "list_all (atom_ok fl Dot) c"
    by (rule star_E)
  from rmatch_consumes [OF 1] obtain op where 8: "p1 = p @ op" "rest = op @ q1" by blast
  from rmatch_consumes [OF 4] obtain cl where 9: "p' = p2 @ cl" "q2 = cl @ r'" by blast
  from 6 7 have g2: "g2 = g1(1 \<mapsto> c)" by simp
  from rmatch_groups [OF 4, of 1] assms(2) g2 have a: "g' 1 = Some c" by simp
  from 1 8 7 9 have "accepts fl (html_open tagname attrs) p op (c @ cl @ r')"
    unfolding accepts_iff [of _ _ _ _ _ g] by auto
  moreover from 4 7 8 9 have "accepts fl (html_close tagname) (p @ op @ c) cl r'"
    unfolding accepts_iff [of _ _ _ _ _ g2] by auto
  moreover from 7 8 9 have "rest = op @ c @ cl @ r'" "p' = p @ op @ c @ cl" by simp_all
  ultimately show ?thesis using a 7(4) by blast
qed

lemma tag_start:
  assumes "x \<in> set (rmatch fl (Seq (NotBehind c) (Seq (chr CHR ''<'') (Seq tagname k))) (p, rest, g))"
  shows "\<exists>r1. rest = CHR ''<'' # r1 \<and> rmatch fl tagname (p @ ''<'', r1, g) \<noteq> []"
proof -
  from assms have "x \<in> set (rmatch fl (Seq (chr CHR ''<'') (Seq tagname k)) (p, rest, g))"
    by (rule seq_notbehind_E)
  moreover obtain p' r' g' where "x = (p', r', g')" by (cases x)
  ultimately obtain r1 where 1: "rest = CHR ''<'' # r1" and
    2: "x \<in> set (rmatch fl (Seq tagname k) (p @ ''<'', r1, g))"
    by (auto elim: seq_chr_E)
  from 2 obtain p1 q1 g1 where "(p1, q1, g1) \<in> set (rmatch fl tagname (p @ ''<'', r1, g))"
    by (rule seq_E)
  then have "rmatch fl tagname (p @ ''<'', r1, g) \<noteq> []" by (rule nonemptyI)
  with 1 show ?thesis by blast
qed

lemma span_tag_start:
  assumes "x \<in> set (rmatch fl (html_span tagname attrs) (p, rest, g))"
  shows "\<exists>r1. rest = CHR ''<'' # r1 \<and> rmatch fl tagname (p @ ''<'', r1, g) \<noteq> []"
proof -
  from assms have "x \<in> set (rmatch fl
      (Seq (html_open tagname attrs) (Seq (Grp 1 (Star Greedy (Atom Dot))) (html_close tagname)))
      (p, rest, g))"
    by (simp add: html_span_def)
  then obtain p1 q1 g1 where
    "(p1, q1, g1) \<in> set (rmatch fl (html_open tagname attrs) (p, rest, g))"
    by (rule seq_E)
  then show ?thesis unfolding html_open_def cat.simps by (rule tag_start)
qed

lemma selfclose_tag_start:
  assumes "x \<in> set (rmatch fl (html_selfclose tagname attrs) (p, rest, g))"
  shows "\<exists>r1. rest = CHR ''<'' # r1 \<and> rmatch fl tagname (p @ ''<'', r1, g) \<noteq> []"
  using assms unfolding html_selfclose_def cat.simps by (rule tag_start)

lemma inline_html_cases:
  assumes "x \<in> set (rmatch fl (INLINE_HTML tagname attrs) st)"
  obtains (span) "x \<in> set (rmatch fl (html_span tagname attrs) st)"
    | (selfclose) "x \<in> set (rmatch fl (html_selfclose tagname attrs) st)"
    | (pi) "x \<in> set (rmatch fl html_pi st)"
    | (doctype) "x \<in> set (rmatch fl html_doctype st)"
    | (cdata) "x \<in> set (rmatch fl html_cdata st)"
  using assms unfolding INLINE_HTML_def alt_mem by blast

lemma inline_html_nonempty:
  assumes "rmatch fl A st \<noteq> []"
    and "A \<in> {html_span tagname attrs, html_selfclose tagname attrs, html_pi, html_doctype, html_cdata}"
  shows "rmatch fl (INLINE_HTML tagname attrs) st \<noteq> []"
  using assms by (auto simp: INLINE_HTML_def)

lemma re_match_head:
  assumes "rmatch fl r (pre, text, Map.empty) \<noteq> []"
  obtains w rest' g' where "(pre @ w, rest', g') \<in> set (rmatch fl r (pre, text, Map.empty))"
    "text = w @ rest'" "re_match fl r (pre @ text) (length pre) = Some (g'(0 \<mapsto> w))"
proof -
  from assms obtain x ys where 1: "rmatch fl r (pre, text, Map.empty) = x # ys"
    by (cases "rmatch fl r (pre, text, Map.empty)") auto
  obtain p' r' g' where x: "x = (p', r', g')" by (cases x)
  from 1 x have 2: "(p', r', g') \<in> set (rmatch fl r (pre, text, Map.empty))" by simp
  from rmatch_consumes [OF 2] obtain w where 3: "p' = pre @ w" "text = w @ r'" by blast
  from 1 x 3 have "re_match fl r (pre @ text) (length pre) = Some (g'(0 \<mapsto> w))"
    by (simp add: re_match_def)
  with 2 3 that show thesis by blast
qed

text \<open>
  The first result of a pattern that ends in a greedy run followed by \<open>f\<close>: the run is the
  longest after which \<open>f\<close> succeeds.
\<close>

lemma concat_head:
  assumes "concat (map F xs) = x # ys"
  shows "\<exists>y zs. y \<in> set xs \<and> F y = x # zs"
  using assms
proof (induction xs)
  case Nil
  then show ?case by simp
next
  case (Cons a xs)
  note prems = Cons.prems and IH = Cons.IH
  show ?case
  proof (cases "F a")
    case Nil
    with prems have "concat (map F xs) = x # ys" by simp
    from IH [OF this] show ?thesis by auto
  next
    case (Cons b bs)
    with prems have "F a = x # bs" by simp
    then show ?thesis by auto
  qed
qed

lemma greedy_star_head:
  assumes "concat (map f (rmatch fl (Star Greedy (Atom a)) (p, r, g))) = x # xs"
  shows "\<exists>u v ys. r = u @ v \<and> list_all (atom_ok fl a) u \<and> f (p @ u, v, g) = x # ys \<and>
           (\<forall>d v'. d \<noteq> [] \<longrightarrow> v = d @ v' \<longrightarrow> list_all (atom_ok fl a) d \<longrightarrow>
              f (p @ u @ d, v', g) = [])"
  using assms
proof (induction r arbitrary: p xs)
  case Nil
  then have "f (p, [], g) = x # xs" by simp
  then show ?case by (intro exI [of _ "[]"] exI [of _ xs]) simp
next
  case (Cons c cs)
  note prems = Cons.prems and IH = Cons.IH
  let ?A = "if atom_ok fl a c
            then concat (map f (rmatch fl (Star Greedy (Atom a)) (p @ [c], cs, g))) else []"
  from prems have e: "?A @ f (p, c # cs, g) = x # xs" by (simp split: if_splits)
  show ?case
  proof (cases ?A)
    case Nil
    with e have 1: "f (p, c # cs, g) = x # xs" by simp
    have 2: "f (p @ d, v', g) = []"
      if d: "d \<noteq> []" "c # cs = d @ v'" "list_all (atom_ok fl a) d" for d v'
    proof -
      from d obtain d' where d': "d = c # d'" "cs = d' @ v'" by (cases d) auto
      with d have okc: "atom_ok fl a c" and okd: "list_all (atom_ok fl a) d'" by simp_all
      from Nil okc have z: "concat (map f (rmatch fl (Star Greedy (Atom a)) (p @ [c], cs, g))) = []"
        by simp
      have "((p @ [c]) @ d', v', g) \<in> set (rmatch fl (Star Greedy (Atom a)) (p @ [c], cs, g))"
        unfolding star_atom_set using d' okd by blast
      with z have "f ((p @ [c]) @ d', v', g) = []" by auto
      then show ?thesis using d' by simp
    qed
    show ?thesis
      using 1 2 by (intro exI [of _ "[]"] exI [of _ "c # cs"] exI [of _ xs]) simp
  next
    case (Cons b bs)
    then have ok: "atom_ok fl a c" by (auto split: if_splits)
    with Cons e have "concat (map f (rmatch fl (Star Greedy (Atom a)) (p @ [c], cs, g))) = x # bs"
      by simp
    from IH [OF this] obtain u v ys where
      3: "cs = u @ v" "list_all (atom_ok fl a) u" "f ((p @ [c]) @ u, v, g) = x # ys"
        "\<forall>d v'. d \<noteq> [] \<longrightarrow> v = d @ v' \<longrightarrow> list_all (atom_ok fl a) d \<longrightarrow>
           f ((p @ [c]) @ u @ d, v', g) = []"
      by blast
    show ?thesis
      using 3 ok by (intro exI [of _ "c # u"] exI [of _ v] exI [of _ ys]) simp
  qed
qed

lemma span_head:
  assumes hd: "rmatch fl (html_span tagname attrs) (p, rest, g) = x # xs"
    and ng: "1 \<notin> grps tagname"
  shows "\<exists>op c cl r' g'. x = (p @ op @ c @ cl, r', g') \<and> rest = op @ c @ cl @ r' \<and> g' 1 = Some c \<and>
           accepts fl (html_open tagname attrs) p op (c @ cl @ r') \<and>
           list_all (atom_ok fl Dot) c \<and>
           accepts fl (html_close tagname) (p @ op @ c) cl r' \<and>
           (\<forall>d cl2 r2. d \<noteq> [] \<longrightarrow> list_all (atom_ok fl Dot) d \<longrightarrow> cl @ r' = d @ cl2 @ r2 \<longrightarrow>
              \<not> accepts fl (html_close tagname) (p @ op @ c @ d) cl2 r2)"
proof -
  let ?F = "rmatch fl (Seq (Grp 1 (Star Greedy (Atom Dot))) (html_close tagname))"
  from hd have "concat (map ?F (rmatch fl (html_open tagname attrs) (p, rest, g))) = x # xs"
    by (simp add: html_span_def)
  from concat_head [OF this] obtain y zs where
    y: "y \<in> set (rmatch fl (html_open tagname attrs) (p, rest, g))" and Fy: "?F y = x # zs"
    by blast
  obtain p1 q1 g1 where ye: "y = (p1, q1, g1)" by (cases y)
  from rmatch_consumes [OF y [unfolded ye]] obtain op where op: "p1 = p @ op" "rest = op @ q1"
    by blast
  let ?h = "\<lambda>(p', r', g'). (p', r', g'(1 \<mapsto> drop (length p1) p'))"
  let ?f = "\<lambda>st. rmatch fl (html_close tagname) (?h st)"
  from Fy have "concat (map ?f (rmatch fl (Star Greedy (Atom Dot)) (p1, q1, g1))) = x # zs"
    unfolding ye by (simp add: comp_def)
  from greedy_star_head [OF this] obtain c v ys where
    c: "q1 = c @ v" "list_all (atom_ok fl Dot) c" "?f (p1 @ c, v, g1) = x # ys" and
    ext: "\<forall>d v'. d \<noteq> [] \<longrightarrow> v = d @ v' \<longrightarrow> list_all (atom_ok fl Dot) d \<longrightarrow>
            ?f (p1 @ c @ d, v', g1) = []"
    by blast
  from c(3) have cl0: "rmatch fl (html_close tagname) (p1 @ c, v, g1(1 \<mapsto> c)) = x # ys" by simp
  obtain p' r' g' where xe: "x = (p', r', g')" by (cases x)
  from cl0 xe have xm: "(p', r', g') \<in> set (rmatch fl (html_close tagname) (p1 @ c, v, g1(1 \<mapsto> c)))"
    by simp
  from rmatch_consumes [OF xm] obtain cl where cl: "p' = (p1 @ c) @ cl" "v = cl @ r'" by blast
  from rmatch_groups [OF xm, of 1] ng have g1c: "g' 1 = Some c" by simp
  from y ye op c cl have a1: "accepts fl (html_open tagname attrs) p op (c @ cl @ r')"
    unfolding accepts_iff [of _ _ _ _ _ g] by auto
  from xm op cl have a2: "accepts fl (html_close tagname) (p @ op @ c) cl r'"
    unfolding accepts_iff [of _ _ _ _ _ "g1(1 \<mapsto> c)"] by auto
  have a3: "\<not> accepts fl (html_close tagname) (p @ op @ c @ d) cl2 r2"
    if d: "d \<noteq> []" "list_all (atom_ok fl Dot) d" "cl @ r' = d @ cl2 @ r2" for d cl2 r2
  proof -
    from d cl have "v = d @ (cl2 @ r2)" by simp
    with ext d have "?f (p1 @ c @ d, cl2 @ r2, g1) = []" by blast
    then have "rmatch fl (html_close tagname) (p @ op @ c @ d, cl2 @ r2, g1(1 \<mapsto> c @ d)) = []"
      using op by simp
    then show ?thesis
      unfolding accepts_iff [of _ _ _ _ _ "g1(1 \<mapsto> c @ d)"] by simp
  qed
  from op c cl have "x = (p @ op @ c @ cl, r', g')" "rest = op @ c @ cl @ r'"
    using xe by simp_all
  with g1c a1 c(2) a2 a3 show ?thesis by blast
qed

lemma html_span_part:
  assumes ng: "1 \<notin> grps tagname"
    and op: "accepts fl (html_open tagname attrs) pre op (c @ cl @ rest)"
    and ct: "list_all (atom_ok fl Dot) c"
    and cl: "accepts fl (html_close tagname) (pre @ op @ c) cl rest"
  shows "\<exists>m op' c' cl' rest'.
           re_match fl (INLINE_HTML tagname attrs) (pre @ op @ c @ cl @ rest) (length pre) = Some m \<and>
           op @ c @ cl @ rest = op' @ c' @ cl' @ rest' \<and> m 0 = Some (op' @ c' @ cl') \<and> m 1 = Some c' \<and>
           accepts fl (html_open tagname attrs) pre op' (c' @ cl' @ rest') \<and>
           list_all (atom_ok fl Dot) c' \<and>
           accepts fl (html_close tagname) (pre @ op' @ c') cl' rest' \<and>
           (\<forall>d cl2 rest2. d \<noteq> [] \<longrightarrow> list_all (atom_ok fl Dot) d \<longrightarrow>
              cl' @ rest' = d @ cl2 @ rest2 \<longrightarrow>
              \<not> accepts fl (html_close tagname) (pre @ op' @ c' @ d) cl2 rest2)"
proof -
  let ?text = "op @ c @ cl @ rest"
  let ?st = "(pre, ?text, Map.empty :: groups)"
  from op obtain g1 where
    1: "(pre @ op, c @ cl @ rest, g1) \<in> set (rmatch fl (html_open tagname attrs) ?st)"
    unfolding accepts_iff [of _ _ _ _ _ Map.empty] by blast
  from cl obtain g3 where
    2: "((pre @ op @ c) @ cl, rest, g3) \<in>
          set (rmatch fl (html_close tagname) (pre @ op @ c, cl @ rest, g1(1 \<mapsto> c)))"
    unfolding accepts_iff [of _ _ _ _ _ "g1(1 \<mapsto> c)"] by blast
  have "((pre @ op @ c) @ cl, rest, g3) \<in> set (rmatch fl (html_span tagname attrs) ?st)"
  proof (rule span_present [OF 1 ct])
    show "((pre @ op @ c) @ cl, rest, g3) \<in>
            set (rmatch fl (html_close tagname) ((pre @ op) @ c, cl @ rest, g1(1 \<mapsto> c)))"
      using 2 by simp
  qed
  then have "rmatch fl (html_span tagname attrs) ?st \<noteq> []" by (rule nonemptyI)
  then obtain x ys where 3: "rmatch fl (html_span tagname attrs) ?st = x # ys"
    by (cases "rmatch fl (html_span tagname attrs) ?st") auto
  from span_head [OF 3 ng] obtain op' c' cl' r' g' where
    x: "x = (pre @ op' @ c' @ cl', r', g')" and
    5: "?text = op' @ c' @ cl' @ r'" "g' 1 = Some c'"
       "accepts fl (html_open tagname attrs) pre op' (c' @ cl' @ r')"
       "list_all (atom_ok fl Dot) c'"
       "accepts fl (html_close tagname) (pre @ op' @ c') cl' r'"
       "\<forall>d cl2 r2. d \<noteq> [] \<longrightarrow> list_all (atom_ok fl Dot) d \<longrightarrow> cl' @ r' = d @ cl2 @ r2 \<longrightarrow>
          \<not> accepts fl (html_close tagname) (pre @ op' @ c' @ d) cl2 r2"
    by blast
  from 3 x obtain zs where
    "rmatch fl (INLINE_HTML tagname attrs) ?st = (pre @ op' @ c' @ cl', r', g') # zs"
    by (simp add: INLINE_HTML_def)
  then have "re_match fl (INLINE_HTML tagname attrs) (pre @ ?text) (length pre) =
               Some (g'(0 \<mapsto> op' @ c' @ cl'))"
    by (simp add: re_match_def)
  with 5 show ?thesis
    by (intro exI [of _ "g'(0 \<mapsto> op' @ c' @ cl')"] exI [of _ op'] exI [of _ c'] exI [of _ cl']
        exI [of _ r']) simp
qed

lemma html_pi_part:
  assumes nb: "pre = [] \<or> last pre \<noteq> CHR 0x5C"
    and tq: "\<And>p r g. rmatch fl tagname (p, CHR ''?'' # r, g) = []"
  shows "\<exists>m b' bs' rest'.
           re_match fl (INLINE_HTML tagname attrs) (pre @ ''<?'' @ (b # bs) @ ''?>'' @ rest) (length pre) = Some m \<and>
           m = [0 \<mapsto> ''<?'' @ (b' # bs') @ ''?>''] \<and>
           ''<?'' @ (b # bs) @ ''?>'' @ rest = ''<?'' @ (b' # bs') @ ''?>'' @ rest'"
proof -
  let ?text = "''<?'' @ (b # bs) @ ''?>'' @ rest"
  let ?st = "(pre, ?text, Map.empty :: groups)"
  have "rmatch fl html_pi ?st \<noteq> []" using pi_present [OF nb, of fl b bs rest Map.empty] by simp
  then have "rmatch fl (INLINE_HTML tagname attrs) ?st \<noteq> []"
    by (rule inline_html_nonempty) simp
  then obtain w rest' g' where
    1: "(pre @ w, rest', g') \<in> set (rmatch fl (INLINE_HTML tagname attrs) ?st)" and
    2: "?text = w @ rest'" and
    3: "re_match fl (INLINE_HTML tagname attrs) (pre @ ?text) (length pre) = Some (g'(0 \<mapsto> w))"
    by (rule re_match_head)
  from 1 show ?thesis
  proof (cases rule: inline_html_cases)
    case span
    from span_tag_start [OF span] tq show ?thesis by simp
  next
    case selfclose
    from selfclose_tag_start [OF selfclose] tq show ?thesis by simp
  next
    case pi
    from pi_shape [OF pi] obtain b' bs' where
      "g' = Map.empty" "pre @ w = pre @ ''<?'' @ (b' # bs') @ ''?>''"
      "?text = ''<?'' @ (b' # bs') @ ''?>'' @ rest'"
      by blast
    with 3 show ?thesis by (intro exI [of _ "g'(0 \<mapsto> w)"] exI [of _ b'] exI [of _ bs'] exI [of _ rest']) simp
  next
    case doctype
    from doctype_shape [OF doctype] show ?thesis by simp
  next
    case cdata
    from cdata_shape [OF cdata] show ?thesis by simp
  qed
qed

lemma html_doctype_part:
  assumes nb: "pre = [] \<or> last pre \<noteq> CHR 0x5C"
    and te: "\<And>p r g. rmatch fl tagname (p, CHR ''!'' # r, g) = []"
    and up: "atom_ok fl (Cls [Range CHR ''A'' CHR ''Z'']) u"
  shows "\<exists>m b' bs' rest'.
           re_match fl (INLINE_HTML tagname attrs) (pre @ ''<!'' @ [u] @ (b # bs) @ ''>'' @ rest) (length pre) = Some m \<and>
           m = [0 \<mapsto> ''<!'' @ [u] @ (b' # bs') @ ''>''] \<and>
           ''<!'' @ [u] @ (b # bs) @ ''>'' @ rest = ''<!'' @ [u] @ (b' # bs') @ ''>'' @ rest'"
proof -
  let ?text = "''<!'' @ [u] @ (b # bs) @ ''>'' @ rest"
  let ?st = "(pre, ?text, Map.empty :: groups)"
  have "rmatch fl html_doctype ?st \<noteq> []"
    using doctype_present [OF nb up, of b bs rest Map.empty] by simp
  then have "rmatch fl (INLINE_HTML tagname attrs) ?st \<noteq> []"
    by (rule inline_html_nonempty) simp
  then obtain w rest' g' where
    1: "(pre @ w, rest', g') \<in> set (rmatch fl (INLINE_HTML tagname attrs) ?st)" and
    2: "?text = w @ rest'" and
    3: "re_match fl (INLINE_HTML tagname attrs) (pre @ ?text) (length pre) = Some (g'(0 \<mapsto> w))"
    by (rule re_match_head)
  from 1 show ?thesis
  proof (cases rule: inline_html_cases)
    case span
    from span_tag_start [OF span] te show ?thesis by simp
  next
    case selfclose
    from selfclose_tag_start [OF selfclose] te show ?thesis by simp
  next
    case pi
    from pi_shape [OF pi] show ?thesis by simp
  next
    case doctype
    from doctype_shape [OF doctype] obtain u' b' bs' where
      "g' = Map.empty" "pre @ w = pre @ ''<!'' @ [u'] @ (b' # bs') @ ''>''"
      "?text = ''<!'' @ [u'] @ (b' # bs') @ ''>'' @ rest'"
      by blast
    with 3 show ?thesis by (intro exI [of _ "g'(0 \<mapsto> w)"] exI [of _ b'] exI [of _ bs'] exI [of _ rest']) simp
  next
    case cdata
    from cdata_shape [OF cdata] up show ?thesis by auto
  qed
qed

lemma html_cdata_part:
  assumes nb: "pre = [] \<or> last pre \<noteq> CHR 0x5C"
    and te: "\<And>p r g. rmatch fl tagname (p, CHR ''!'' # r, g) = []"
  shows "\<exists>m b' bs' rest'.
           re_match fl (INLINE_HTML tagname attrs) (pre @ ''<![CDATA'' @ (b # bs) @ '']]>'' @ rest) (length pre) = Some m \<and>
           m = [0 \<mapsto> ''<![CDATA'' @ (b' # bs') @ '']]>''] \<and>
           ''<![CDATA'' @ (b # bs) @ '']]>'' @ rest = ''<![CDATA'' @ (b' # bs') @ '']]>'' @ rest'"
proof -
  let ?text = "''<![CDATA'' @ (b # bs) @ '']]>'' @ rest"
  let ?st = "(pre, ?text, Map.empty :: groups)"
  have "rmatch fl html_cdata ?st \<noteq> []"
    using cdata_present [OF nb, of fl b bs rest Map.empty] by simp
  then have "rmatch fl (INLINE_HTML tagname attrs) ?st \<noteq> []"
    by (rule inline_html_nonempty) simp
  then obtain w rest' g' where
    1: "(pre @ w, rest', g') \<in> set (rmatch fl (INLINE_HTML tagname attrs) ?st)" and
    2: "?text = w @ rest'" and
    3: "re_match fl (INLINE_HTML tagname attrs) (pre @ ?text) (length pre) = Some (g'(0 \<mapsto> w))"
    by (rule re_match_head)
  from 1 show ?thesis
  proof (cases rule: inline_html_cases)
    case span
    from span_tag_start [OF span] te show ?thesis by simp
  next
    case selfclose
    from selfclose_tag_start [OF selfclose] te show ?thesis by simp
  next
    case pi
    from pi_shape [OF pi] show ?thesis by simp
  next
    case doctype
    from doctype_shape [OF doctype] show ?thesis by auto
  next
    case cdata
    from cdata_shape [OF cdata] obtain b' bs' where
      "g' = Map.empty" "pre @ w = pre @ ''<![CDATA'' @ (b' # bs') @ '']]>''"
      "?text = ''<![CDATA'' @ (b' # bs') @ '']]>'' @ rest'"
      by blast
    with 3 show ?thesis by (intro exI [of _ "g'(0 \<mapsto> w)"] exI [of _ b'] exI [of _ bs'] exI [of _ rest']) simp
  qed
qed

lemma html_selfclose_part:
  assumes ng: "1 \<notin> grps tagname"
    and tq: "\<And>p r g. rmatch fl tagname (p, CHR ''?'' # r, g) = []"
    and te: "\<And>p r g. rmatch fl tagname (p, CHR ''!'' # r, g) = []"
    and sc: "accepts fl (html_selfclose tagname attrs) pre w rest"
  shows "\<exists>m t rest'.
           re_match fl (INLINE_HTML tagname attrs) (pre @ w @ rest) (length pre) = Some m \<and>
           m 0 = Some t \<and> w @ rest = t @ rest' \<and>
           ((\<exists>c. m 1 = Some c) \<or> accepts fl (html_selfclose tagname attrs) pre t rest')"
proof -
  let ?st = "(pre, w @ rest, Map.empty :: groups)"
  from sc obtain g0 where
    0: "(pre @ w, rest, g0) \<in> set (rmatch fl (html_selfclose tagname attrs) ?st)"
    unfolding accepts_iff [of _ _ _ _ _ Map.empty] by blast
  from selfclose_tag_start [OF 0] obtain r1 where
    s: "w @ rest = CHR ''<'' # r1" "rmatch fl tagname (pre @ ''<'', r1, Map.empty) \<noteq> []"
    by blast
  from 0 have "rmatch fl (html_selfclose tagname attrs) ?st \<noteq> []" by (rule nonemptyI)
  then have "rmatch fl (INLINE_HTML tagname attrs) ?st \<noteq> []"
    by (rule inline_html_nonempty) simp
  then obtain t rest' g' where
    1: "(pre @ t, rest', g') \<in> set (rmatch fl (INLINE_HTML tagname attrs) ?st)" and
    2: "w @ rest = t @ rest'" and
    3: "re_match fl (INLINE_HTML tagname attrs) (pre @ w @ rest) (length pre) = Some (g'(0 \<mapsto> t))"
    by (rule re_match_head)
  have "(\<exists>c. g' 1 = Some c) \<or> accepts fl (html_selfclose tagname attrs) pre t rest'"
    using 1
  proof (cases rule: inline_html_cases)
    case span
    from span_shape [OF span ng] show ?thesis by blast
  next
    case selfclose
    then have "accepts fl (html_selfclose tagname attrs) pre t rest'"
      unfolding 2 accepts_iff [of _ _ _ _ _ Map.empty] by blast
    then show ?thesis by (rule disjI2)
  next
    case pi
    from pi_shape [OF pi] s tq show ?thesis by auto
  next
    case doctype
    from doctype_shape [OF doctype] s te show ?thesis by auto
  next
    case cdata
    from cdata_shape [OF cdata] s te show ?thesis by auto
  qed
  with 2 3 show ?thesis
    by (intro exI [of _ "g'(0 \<mapsto> t)"] exI [of _ t] exI [of _ rest']) simp
qed

text \<open>
  Claim C7, as the code has it. Let the tag-name pattern hold no group numbered 1 and match
  nothing that starts with \<open>?\<close> or \<open>!\<close>, and let no backslash stand directly before the
  cursor. Then, under any flags:
  \<^item> where the text at the cursor is an open tag, contents that the \<open>.\<close> of the pattern
    accepts (without the DOTALL flag: contents without a line break) and a close tag, the
    rule matches, and its match is one element made of an open tag, contents and a close
    tag, with the contents in group 1. The contents are greedy: after the open tag that
    the match starts with, they are the longest run of characters the \<open>.\<close> accepts that a
    close tag follows, so that no close tag, of any tag name, follows a longer run. The
    close tag at which the match ends is therefore the last one the contents can reach,
    not necessarily the one given;
  \<^item> where the text at the cursor is an open/close tag, the rule matches, with that kind of
    tag or with a span that starts at it;
  \<^item> a processing instruction, a doctype and a CDATA section, each with something between
    its markers, is matched as one text from its opening marker to a closing marker, with
    no group.
\<close>

theorem inline_html_single_match:
  assumes "1 \<notin> grps tagname"
    and "\<And>p r g. rmatch fl tagname (p, CHR ''?'' # r, g) = []"
    and "\<And>p r g. rmatch fl tagname (p, CHR ''!'' # r, g) = []"
    and "pre = [] \<or> last pre \<noteq> CHR 0x5C"
  shows
    "(\<forall>op c cl rest.
        accepts fl (html_open tagname attrs) pre op (c @ cl @ rest) \<longrightarrow>
        list_all (atom_ok fl Dot) c \<longrightarrow>
        accepts fl (html_close tagname) (pre @ op @ c) cl rest \<longrightarrow>
        (\<exists>m op' c' cl' rest'.
           re_match fl (INLINE_HTML tagname attrs) (pre @ op @ c @ cl @ rest) (length pre) = Some m \<and>
           op @ c @ cl @ rest = op' @ c' @ cl' @ rest' \<and> m 0 = Some (op' @ c' @ cl') \<and> m 1 = Some c' \<and>
           accepts fl (html_open tagname attrs) pre op' (c' @ cl' @ rest') \<and>
           list_all (atom_ok fl Dot) c' \<and>
           accepts fl (html_close tagname) (pre @ op' @ c') cl' rest' \<and>
           (\<forall>d cl2 rest2. d \<noteq> [] \<longrightarrow> list_all (atom_ok fl Dot) d \<longrightarrow>
              cl' @ rest' = d @ cl2 @ rest2 \<longrightarrow>
              \<not> accepts fl (html_close tagname) (pre @ op' @ c' @ d) cl2 rest2))) \<and>
     (\<forall>w rest.
        accepts fl (html_selfclose tagname attrs) pre w rest \<longrightarrow>
        (\<exists>m t rest'.
           re_match fl (INLINE_HTML tagname attrs) (pre @ w @ rest) (length pre) = Some m \<and>
           m 0 = Some t \<and> w @ rest = t @ rest' \<and>
           ((\<exists>c. m 1 = Some c) \<or> accepts fl (html_selfclose tagname attrs) pre t rest'))) \<and>
     (\<forall>b bs rest.
        \<exists>m b' bs' rest'.
           re_match fl (INLINE_HTML tagname attrs) (pre @ ''<?'' @ (b # bs) @ ''?>'' @ rest) (length pre) = Some m \<and>
           m = [0 \<mapsto> ''<?'' @ (b' # bs') @ ''?>''] \<and>
           ''<?'' @ (b # bs) @ ''?>'' @ rest = ''<?'' @ (b' # bs') @ ''?>'' @ rest') \<and>
     (\<forall>u b bs rest.
        atom_ok fl (Cls [Range CHR ''A'' CHR ''Z'']) u \<longrightarrow>
        (\<exists>m b' bs' rest'.
           re_match fl (INLINE_HTML tagname attrs) (pre @ ''<!'' @ [u] @ (b # bs) @ ''>'' @ rest) (length pre) = Some m \<and>
           m = [0 \<mapsto> ''<!'' @ [u] @ (b' # bs') @ ''>''] \<and>
           ''<!'' @ [u] @ (b # bs) @ ''>'' @ rest = ''<!'' @ [u] @ (b' # bs') @ ''>'' @ rest')) \<and>
     (\<forall>b bs rest.
        \<exists>m b' bs' rest'.
           re_match fl (INLINE_HTML tagname attrs) (pre @ ''<![CDATA'' @ (b # bs) @ '']]>'' @ rest) (length pre) = Some m \<and>
           m = [0 \<mapsto> ''<![CDATA'' @ (b' # bs') @ '']]>''] \<and>
           ''<![CDATA'' @ (b # bs) @ '']]>'' @ rest = ''<![CDATA'' @ (b' # bs') @ '']]>'' @ rest')"
proof (intro conjI allI impI)
  fix op c cl rest
  assume "accepts fl (html_open tagname attrs) pre op (c @ cl @ rest)"
    "list_all (atom_ok fl Dot) c"
    "accepts fl (html_close tagname) (pre @ op @ c) cl rest"
  then show "\<exists>m op' c' cl' rest'.
           re_match fl (INLINE_HTML tagname attrs) (pre @ op @ c @ cl @ rest) (length pre) = Some m \<and>
           op @ c @ cl @ rest = op' @ c' @ cl' @ rest' \<and> m 0 = Some (op' @ c' @ cl') \<and> m 1 = Some c' \<and>
           accepts fl (html_open tagname attrs) pre op' (c' @ cl' @ rest') \<and>
           list_all (atom_ok fl Dot) c' \<and>
           accepts fl (html_close tagname) (pre @ op' @ c') cl' rest' \<and>
           (\<forall>d cl2 rest2. d \<noteq> [] \<longrightarrow> list_all (atom_ok fl Dot) d \<longrightarrow>
              cl' @ rest' = d @ cl2 @ rest2 \<longrightarrow>
              \<not> accepts fl (html_close tagname) (pre @ op' @ c' @ d) cl2 rest2)"
    by (rule html_span_part [OF assms(1)])
next
  fix w rest
  assume "accepts fl (html_selfclose tagname attrs) pre w rest"
  then show "\<exists>m t rest'.
           re_match fl (INLINE_HTML tagname attrs) (pre @ w @ rest) (length pre) = Some m \<and>
           m 0 = Some t \<and> w @ rest = t @ rest' \<and>
           ((\<exists>c. m 1 = Some c) \<or> accepts fl (html_selfclose tagname attrs) pre t rest')"
    by (rule html_selfclose_part [OF assms(1) assms(2) assms(3)])
next
  fix b bs rest
  show "\<exists>m b' bs' rest'.
           re_match fl (INLINE_HTML tagname attrs) (pre @ ''<?'' @ (b # bs) @ ''?>'' @ rest) (length pre) = Some m \<and>
           m = [0 \<mapsto> ''<?'' @ (b' # bs') @ ''?>''] \<and>
           ''<?'' @ (b # bs) @ ''?>'' @ rest = ''<?'' @ (b' # bs') @ ''?>'' @ rest'"
    by (rule html_pi_part [OF assms(4) assms(2)])
next
  fix u b bs rest
  assume "atom_ok fl (Cls [Range CHR ''A'' CHR ''Z'']) u"
  then show "\<exists>m b' bs' rest'.
           re_match fl (INLINE_HTML tagname attrs) (pre @ ''<!'' @ [u] @ (b # bs) @ ''>'' @ rest) (length pre) = Some m \<and>
           m = [0 \<mapsto> ''<!'' @ [u] @ (b' # bs') @ ''>''] \<and>
           ''<!'' @ [u] @ (b # bs) @ ''>'' @ rest = ''<!'' @ [u] @ (b' # bs') @ ''>'' @ rest'"
    by (rule html_doctype_part [OF assms(4) assms(3)])
next
  fix b bs rest
  show "\<exists>m b' bs' rest'.
           re_match fl (INLINE_HTML tagname attrs) (pre @ ''<![CDATA'' @ (b # bs) @ '']]>'' @ rest) (length pre) = Some m \<and>
           m = [0 \<mapsto> ''<![CDATA'' @ (b' # bs') @ '']]>''] \<and>
           ''<![CDATA'' @ (b # bs) @ '']]>'' @ rest = ''<![CDATA'' @ (b' # bs') @ '']]>'' @ rest'"
    by (rule html_cdata_part [OF assms(4) assms(3)])
qed

lemmas html_eval =
  accepts_def html_span_def html_open_def html_close_def html_selfclose_def html_pi_def
  html_doctype_def html_cdata_def INLINE_HTML_def example_TAGNAME_def example_ATTRIBUTES_def
  Plus_def Opt_def no_flags_def isspace_def rmatch_Star re_match_def

theorem inline_html_single_match_witness:
  "(\<exists>m op' c' cl' rest'.
      re_match no_flags (INLINE_HTML example_TAGNAME example_ATTRIBUTES)
        (''see '' @ ''<b>'' @ ''x'' @ ''</b>'' @ '' y'') (length ''see '') = Some m \<and>
      ''<b>'' @ ''x'' @ ''</b>'' @ '' y'' = op' @ c' @ cl' @ rest' \<and>
      m 0 = Some (op' @ c' @ cl') \<and> m 1 = Some c' \<and>
      accepts no_flags (html_open example_TAGNAME example_ATTRIBUTES) ''see '' op' (c' @ cl' @ rest') \<and>
      list_all (atom_ok no_flags Dot) c' \<and>
      accepts no_flags (html_close example_TAGNAME) (''see '' @ op' @ c') cl' rest' \<and>
      (\<forall>d cl2 rest2. d \<noteq> [] \<longrightarrow> list_all (atom_ok no_flags Dot) d \<longrightarrow>
         cl' @ rest' = d @ cl2 @ rest2 \<longrightarrow>
         \<not> accepts no_flags (html_close example_TAGNAME) (''see '' @ op' @ c' @ d) cl2 rest2)) \<and>
   (\<exists>m t rest'.
      re_match no_flags (INLINE_HTML example_TAGNAME example_ATTRIBUTES)
        (''see '' @ ''<br />'' @ '' y'') (length ''see '') = Some m \<and>
      m 0 = Some t \<and> ''<br />'' @ '' y'' = t @ rest' \<and>
      ((\<exists>c. m 1 = Some c) \<or>
       accepts no_flags (html_selfclose example_TAGNAME example_ATTRIBUTES) ''see '' t rest')) \<and>
   (\<exists>m b' bs' rest'.
      re_match no_flags (INLINE_HTML example_TAGNAME example_ATTRIBUTES)
        (''see '' @ ''<?'' @ (CHR ''p'' # ''hp x '') @ ''?>'' @ '' y'') (length ''see '') = Some m \<and>
      m = [0 \<mapsto> ''<?'' @ (b' # bs') @ ''?>''] \<and>
      ''<?'' @ (CHR ''p'' # ''hp x '') @ ''?>'' @ '' y'' = ''<?'' @ (b' # bs') @ ''?>'' @ rest') \<and>
   (\<exists>m b' bs' rest'.
      re_match no_flags (INLINE_HTML example_TAGNAME example_ATTRIBUTES)
        (''see '' @ ''<!'' @ [CHR ''D''] @ (CHR ''O'' # ''CTYPE html'') @ ''>'' @ '' y'') (length ''see '') = Some m \<and>
      m = [0 \<mapsto> ''<!'' @ [CHR ''D''] @ (b' # bs') @ ''>''] \<and>
      ''<!'' @ [CHR ''D''] @ (CHR ''O'' # ''CTYPE html'') @ ''>'' @ '' y'' =
        ''<!'' @ [CHR ''D''] @ (b' # bs') @ ''>'' @ rest') \<and>
   (\<exists>m b' bs' rest'.
      re_match no_flags (INLINE_HTML example_TAGNAME example_ATTRIBUTES)
        (''see '' @ ''<![CDATA'' @ (CHR ''['' # ''x'') @ '']]>'' @ '' y'') (length ''see '') = Some m \<and>
      m = [0 \<mapsto> ''<![CDATA'' @ (b' # bs') @ '']]>''] \<and>
      ''<![CDATA'' @ (CHR ''['' # ''x'') @ '']]>'' @ '' y'' = ''<![CDATA'' @ (b' # bs') @ '']]>'' @ rest')"
proof -
  have h1: "1 \<notin> grps example_TAGNAME" by (simp add: example_TAGNAME_def)
  have h2: "\<And>p r g. rmatch no_flags example_TAGNAME (p, CHR ''?'' # r, g) = []"
    by (simp add: example_TAGNAME_def)
  have h3: "\<And>p r g. rmatch no_flags example_TAGNAME (p, CHR ''!'' # r, g) = []"
    by (simp add: example_TAGNAME_def)
  have h4: "''see '' = [] \<or> last ''see '' \<noteq> CHR 0x5C" by simp
  note T = inline_html_single_match [OF h1 h2 h3 h4, where attrs = example_ATTRIBUTES]
  have a1: "accepts no_flags (html_open example_TAGNAME example_ATTRIBUTES) ''see '' ''<b>''
              (''x'' @ ''</b>'' @ '' y'')"
    by (simp add: html_eval)
  have a2: "list_all (atom_ok no_flags Dot) ''x''" by simp
  have a3: "accepts no_flags (html_close example_TAGNAME) (''see '' @ ''<b>'' @ ''x'') ''</b>'' '' y''"
    by (simp add: html_eval)
  have a4: "accepts no_flags (html_selfclose example_TAGNAME example_ATTRIBUTES) ''see '' ''<br />'' '' y''"
    by (simp add: html_eval)
  have a5: "atom_ok no_flags (Cls [Range CHR ''A'' CHR ''Z'']) CHR ''D''" by simp
  show ?thesis
  proof (intro conjI)
    show "\<exists>m op' c' cl' rest'.
      re_match no_flags (INLINE_HTML example_TAGNAME example_ATTRIBUTES)
        (''see '' @ ''<b>'' @ ''x'' @ ''</b>'' @ '' y'') (length ''see '') = Some m \<and>
      ''<b>'' @ ''x'' @ ''</b>'' @ '' y'' = op' @ c' @ cl' @ rest' \<and>
      m 0 = Some (op' @ c' @ cl') \<and> m 1 = Some c' \<and>
      accepts no_flags (html_open example_TAGNAME example_ATTRIBUTES) ''see '' op' (c' @ cl' @ rest') \<and>
      list_all (atom_ok no_flags Dot) c' \<and>
      accepts no_flags (html_close example_TAGNAME) (''see '' @ op' @ c') cl' rest' \<and>
      (\<forall>d cl2 rest2. d \<noteq> [] \<longrightarrow> list_all (atom_ok no_flags Dot) d \<longrightarrow>
         cl' @ rest' = d @ cl2 @ rest2 \<longrightarrow>
         \<not> accepts no_flags (html_close example_TAGNAME) (''see '' @ op' @ c' @ d) cl2 rest2)"
      by (rule T [THEN conjunct1, rule_format, OF a1 a2 a3])
    show "\<exists>m t rest'.
      re_match no_flags (INLINE_HTML example_TAGNAME example_ATTRIBUTES)
        (''see '' @ ''<br />'' @ '' y'') (length ''see '') = Some m \<and>
      m 0 = Some t \<and> ''<br />'' @ '' y'' = t @ rest' \<and>
      ((\<exists>c. m 1 = Some c) \<or>
       accepts no_flags (html_selfclose example_TAGNAME example_ATTRIBUTES) ''see '' t rest')"
      by (rule T [THEN conjunct2, THEN conjunct1, rule_format, OF a4])
    show "\<exists>m b' bs' rest'.
      re_match no_flags (INLINE_HTML example_TAGNAME example_ATTRIBUTES)
        (''see '' @ ''<?'' @ (CHR ''p'' # ''hp x '') @ ''?>'' @ '' y'') (length ''see '') = Some m \<and>
      m = [0 \<mapsto> ''<?'' @ (b' # bs') @ ''?>''] \<and>
      ''<?'' @ (CHR ''p'' # ''hp x '') @ ''?>'' @ '' y'' = ''<?'' @ (b' # bs') @ ''?>'' @ rest'"
      by (rule T [THEN conjunct2, THEN conjunct2, THEN conjunct1, rule_format])
    show "\<exists>m b' bs' rest'.
      re_match no_flags (INLINE_HTML example_TAGNAME example_ATTRIBUTES)
        (''see '' @ ''<!'' @ [CHR ''D''] @ (CHR ''O'' # ''CTYPE html'') @ ''>'' @ '' y'') (length ''see '') = Some m \<and>
      m = [0 \<mapsto> ''<!'' @ [CHR ''D''] @ (b' # bs') @ ''>''] \<and>
      ''<!'' @ [CHR ''D''] @ (CHR ''O'' # ''CTYPE html'') @ ''>'' @ '' y'' =
        ''<!'' @ [CHR ''D''] @ (b' # bs') @ ''>'' @ rest'"
      by (rule T [THEN conjunct2, THEN conjunct2, THEN conjunct2, THEN conjunct1, rule_format, OF a5])
    show "\<exists>m b' bs' rest'.
      re_match no_flags (INLINE_HTML example_TAGNAME example_ATTRIBUTES)
        (''see '' @ ''<![CDATA'' @ (CHR ''['' # ''x'') @ '']]>'' @ '' y'') (length ''see '') = Some m \<and>
      m = [0 \<mapsto> ''<![CDATA'' @ (b' # bs') @ '']]>''] \<and>
      ''<![CDATA'' @ (CHR ''['' # ''x'') @ '']]>'' @ '' y'' = ''<![CDATA'' @ (b' # bs') @ '']]>'' @ rest'"
      by (rule T [THEN conjunct2, THEN conjunct2, THEN conjunct2, THEN conjunct2, rule_format])
  qed
qed

text \<open>
  The claim as the specification states it fails: contents with a line break are not
  captured at all, and on a line with two spans the match does not stop at the close tag
  that matches the open tag but runs to the last close tag.
\<close>

theorem inline_html_span_counterexample:
  "re_match no_flags (INLINE_HTML example_TAGNAME example_ATTRIBUTES) ''<b>a\<newline>b</b>'' 0 = None \<and>
   re_match no_flags (INLINE_HTML example_TAGNAME example_ATTRIBUTES) ''<b>x</b> <i>y</i>'' 0 =
     Some [1 \<mapsto> ''x</b> <i>y'', 0 \<mapsto> ''<b>x</b> <i>y</i>'']"
  by (simp add: html_eval)

end
